theory Spec2Isabelle
  imports Main
begin

section \<open>Trees\<close>

text \<open>
  A tree node of the source is an object with an \<open>id\<close>, a list of children, and the
  optional properties \<open>selected\<close> (present on a selectable node), \<open>expanded\<close> (present
  on an expandable node) and \<open>visible\<close>. Node objects are compared by reference
  (\<open>===\<close>) in the source; here a reference to a node is its identifier, and a tree is
  well formed when no identifier occurs twice in it.
\<close>

type_synonym node_id = string

datatype TreeNode =
  TreeNode (nid: node_id) (selectable: bool) (expansion: "bool option") (visible: bool)
    (children: "TreeNode list")

record Tree =
  root :: "TreeNode option"

text \<open>
  Modelled from the spec: the pre-order iterator of \<open>tree-iterator.ts\<close>. It yields the
  root, then recursively each child from left to right; with \<open>pruneCollapsed\<close> the
  children of an expandable node that is not expanded are skipped.
\<close>

fun PreOrderTreeIterator :: "bool \<Rightarrow> TreeNode \<Rightarrow> TreeNode list" where
  "PreOrderTreeIterator pruneCollapsed (TreeNode i s e v cs) =
     TreeNode i s e v cs #
       (if pruneCollapsed \<and> e = Some False then []
        else concat (map (PreOrderTreeIterator pruneCollapsed) cs))"

definition allNodes :: "Tree \<Rightarrow> TreeNode list" where
  "allNodes t = (case root t of None \<Rightarrow> [] | Some r \<Rightarrow> PreOrderTreeIterator False r)"

definition wellFormed :: "Tree \<Rightarrow> bool" where
  "wellFormed t = distinct (map nid (allNodes t))"

text \<open>Modelled from the spec: \<open>Tree.getNode(id)\<close>, the node of the tree with that id.\<close>

definition getNode :: "Tree \<Rightarrow> node_id \<Rightarrow> TreeNode option" where
  "getNode t i = find (\<lambda>n. nid n = i) (allNodes t)"

text \<open>
  Modelled from the spec: \<open>Tree.validateNode(n)\<close> returns \<open>n\<close> when it is a node of the
  current tree and \<open>undefined\<close> otherwise.
\<close>

definition validateNode :: "Tree \<Rightarrow> node_id \<Rightarrow> node_id option" where
  "validateNode t n = (if n \<in> set (map nid (allNodes t)) then Some n else None)"

text \<open>\<open>SelectableTreeNode.is\<close>: the node has a \<open>selected\<close> property.\<close>

definition SelectableTreeNode_is :: "Tree \<Rightarrow> node_id \<Rightarrow> bool" where
  "SelectableTreeNode_is t n = (case getNode t n of None \<Rightarrow> False | Some x \<Rightarrow> selectable x)"

section \<open>Selection state\<close>

datatype SelectionType = DEFAULT | TOGGLE | RANGE

record TreeSelection =
  node :: node_id
  type :: "SelectionType option"

datatype Selection = reset | Selection TreeSelection

datatype error = UnexpectedDefaultSelection | RangeTypeExpected

text \<open>
  A \<open>TreeSelectionState\<close> is its selection stack; the tree it is bound to is a shared
  mutable object of the source and is passed to every operation as it is at the call.
\<close>

type_synonym TreeSelectionState = "TreeSelection list"

fun indexOf :: "'a list \<Rightarrow> 'a \<Rightarrow> int" where
  "indexOf [] x = - 1"
| "indexOf (y # ys) x =
     (if y = x then 0 else (let i = indexOf ys x in if i = - 1 then - 1 else i + 1))"

text \<open>\<open>xs.splice(i, 1)\<close>: removes the element at index \<open>i\<close>, nothing when out of range.\<close>

definition splice1 :: "nat \<Rightarrow> 'a list \<Rightarrow> 'a list" where
  "splice1 i xs = take i xs @ drop (Suc i) xs"

definition checkNoDefaultSelection :: "TreeSelection list \<Rightarrow> error + TreeSelection list" where
  "checkNoDefaultSelection selections =
     (if list_ex (\<lambda>s. type s = None \<or> type s = Some DEFAULT) selections
      then Inl UnexpectedDefaultSelection else Inr selections)"

text \<open>
  The loop shared by \<open>selectionRange\<close> of the state and of the tree model: it collects
  the nodes of the iteration from the first of \<open>from\<close>, \<open>to\<close> up to the second.
\<close>

definition isBorder :: "node_id \<Rightarrow> node_id \<Rightarrow> TreeNode \<Rightarrow> bool" where
  "isBorder from to n = (nid n = from \<or> nid n = to)"

fun rangeLoop :: "node_id \<Rightarrow> node_id \<Rightarrow> bool \<Rightarrow> bool \<Rightarrow> TreeNode list \<Rightarrow> TreeNode list" where
  "rangeLoop from to started finished [] = []"
| "rangeLoop from to started finished (n # ns) =
     (if finished then []
      else (if started \<or> isBorder from to n then [n] else [])
           @ rangeLoop from to (started \<or> isBorder from to n)
               (finished \<or> (isBorder from to n \<and> started)) ns)"

definition orderedRange :: "Tree \<Rightarrow> node_id \<Rightarrow> node_id \<Rightarrow> node_id list" where
  "orderedRange t from to =
     (case root t of None \<Rightarrow> []
      | Some r \<Rightarrow>
         (case validateNode t to of None \<Rightarrow> []
          | Some to' \<Rightarrow>
             (case validateNode t from of None \<Rightarrow> []
              | Some from' \<Rightarrow>
                 (let rng = rangeLoop from' to' False False (PreOrderTreeIterator True r);
                      rng' = (if indexOf (map nid rng) from' > indexOf (map nid rng) to'
                                then rev rng else rng)
                  in map nid (filter selectable rng')))))"

definition selectionRange :: "Tree \<Rightarrow> node_id option \<Rightarrow> node_id \<Rightarrow> node_id list" where
  "selectionRange t fromNode toNode =
     (case fromNode of None \<Rightarrow> []
      | Some f \<Rightarrow> if toNode = f then [] else orderedRange t f toNode)"

fun asArrayLoop ::
  "Tree \<Rightarrow> TreeSelection option \<Rightarrow> node_id list \<Rightarrow> TreeSelection list \<Rightarrow> node_id list" where
  "asArrayLoop t lastSelection nodes [] = nodes"
| "asArrayLoop t lastSelection nodes (s # ss) =
     asArrayLoop t (Some s)
       (if type s = Some RANGE then
          (if (case lastSelection of None \<Rightarrow> False | Some l \<Rightarrow> type l = Some TOGGLE)
           then butlast nodes else nodes)
          @ selectionRange t (map_option node lastSelection) (node s)
        else if type s = Some TOGGLE then nodes @ [node s]
        else nodes)
       ss"

definition asArray :: "Tree \<Rightarrow> TreeSelectionState \<Rightarrow> error + node_id list" where
  "asArray t selectionStack =
     (case checkNoDefaultSelection selectionStack of
        Inl e \<Rightarrow> Inl e
      | Inr copy \<Rightarrow> Inr (rev (asArrayLoop t None [] copy)))"

definition handleReset :: "TreeSelectionState" where
  "handleReset = []"

definition toggle :: "node_id \<Rightarrow> TreeSelection" where
  "toggle n = \<lparr>node = n, type = Some TOGGLE\<rparr>"

definition handleDefault :: "node_id \<Rightarrow> TreeSelectionState" where
  "handleDefault selectedNode = [toggle selectedNode]"

text \<open>
  First loop of \<open>handleToggle\<close>, from the top of the stack (\<open>i = length copy - 1\<close>) down:
  the first range that contains the node is replaced by toggles.
\<close>

fun splitRange ::
  "Tree \<Rightarrow> TreeSelection list \<Rightarrow> node_id \<Rightarrow> nat \<Rightarrow> TreeSelection list option" where
  "splitRange t copy selectedNode 0 = None"
| "splitRange t copy selectedNode (Suc i) =
     (let lastSelection = (if i = 0 then None else Some (node (copy ! (i - 1))));
          s = copy ! i
      in if type s = Some RANGE then
           (let rng = selectionRange t lastSelection (node s);
                index = indexOf rng selectedNode
            in if index \<noteq> - 1 then
                 (let rangeSubstitute = map toggle (tl (splice1 (nat index) rng))
                  in Some (take i copy @ rangeSubstitute @ drop (Suc i) copy))
               else splitRange t copy selectedNode i)
         else splitRange t copy selectedNode i)"

text \<open>Second loop of \<open>handleToggle\<close>: the indices to remove, highest first.\<close>

fun toggleToRemove :: "TreeSelection list \<Rightarrow> node_id \<Rightarrow> nat \<Rightarrow> nat list" where
  "toggleToRemove copy selectedNode 0 = []"
| "toggleToRemove copy selectedNode (Suc i) =
     (if type (copy ! i) = Some RANGE then []
      else (if node (copy ! i) = selectedNode then [i] else [])
           @ toggleToRemove copy selectedNode i)"

definition handleToggle :: "Tree \<Rightarrow> TreeSelectionState \<Rightarrow> node_id \<Rightarrow> error + TreeSelectionState" where
  "handleToggle t selectionStack selectedNode =
     (case checkNoDefaultSelection selectionStack of
        Inl e \<Rightarrow> Inl e
      | Inr copy \<Rightarrow>
         (case splitRange t copy selectedNode (length copy) of
            Some copy' \<Rightarrow> Inr copy'
          | None \<Rightarrow>
             (let toRemove = toggleToRemove copy selectedNode (length copy);
                  copy' = foldl (\<lambda>c index. splice1 index c) copy toRemove
              in if length toRemove > 0 then Inr copy'
                 else Inr (copy' @ [toggle selectedNode]))))"

fun inLoop :: "node_id \<Rightarrow> node_id \<Rightarrow> node_id \<Rightarrow> bool \<Rightarrow> bool \<Rightarrow> TreeNode list \<Rightarrow> bool" where
  "inLoop from to toTest started finished [] = False"
| "inLoop from to toTest started finished (n # ns) =
     (if finished \<or> (toTest = nid n \<and> \<not> started) then False
      else if (started \<or> isBorder from to n) \<and> toTest = nid n then True
      else inLoop from to toTest (started \<or> isBorder from to n)
             (finished \<or> (isBorder from to n \<and> started)) ns)"

text \<open>The method \<open>in\<close> of the state.\<close>

definition inRange :: "Tree \<Rightarrow> TreeSelection \<Rightarrow> node_id option \<Rightarrow> node_id \<Rightarrow> error + bool" where
  "inRange t rng from toTest =
     (if type rng \<noteq> Some RANGE then Inl RangeTypeExpected
      else
        (case from of None \<Rightarrow> Inr False
         | Some f \<Rightarrow>
            (case root t of None \<Rightarrow> Inr False
             | Some r \<Rightarrow>
                if f = toTest \<or> node rng = toTest then Inr True
                else Inr (inLoop f (node rng) toTest False False
                            (PreOrderTreeIterator True r)))))"

text \<open>
  The loop of \<open>handleRange\<close>, from the top of the stack down. It returns the stack
  (popped when its top is a range) and the indices to remove, highest first.
\<close>

fun rangeToRemove ::
  "Tree \<Rightarrow> TreeSelection \<Rightarrow> node_id option \<Rightarrow> TreeSelection list \<Rightarrow> nat \<Rightarrow>
     error + (TreeSelection list \<times> nat list)" where
  "rangeToRemove t rng lastSelection copy 0 = Inr (copy, [])"
| "rangeToRemove t rng lastSelection copy (Suc i) =
     (if type (copy ! i) = Some RANGE then
        (if i = length copy - 1 then Inr (butlast copy, []) else Inr (copy, []))
      else
        (case inRange t rng lastSelection (node (copy ! i)) of
           Inl e \<Rightarrow> Inl e
         | Inr b \<Rightarrow>
            (case rangeToRemove t rng lastSelection copy i of
               Inl e \<Rightarrow> Inl e
             | Inr (copy', toRemove) \<Rightarrow> Inr (copy', (if b then [i] else []) @ toRemove))))"

definition handleRange :: "Tree \<Rightarrow> TreeSelectionState \<Rightarrow> node_id \<Rightarrow> error + TreeSelectionState" where
  "handleRange t selectionStack selectedNode =
     (case checkNoDefaultSelection selectionStack of
        Inl e \<Rightarrow> Inl e
      | Inr copy \<Rightarrow>
         (let rng = \<lparr>node = selectedNode, type = Some RANGE\<rparr>;
              lastSelection = (if copy = [] then None else Some (node (last copy)))
          in case rangeToRemove t rng lastSelection copy (length copy) of
               Inl e \<Rightarrow> Inl e
             | Inr (copy', toRemove) \<Rightarrow>
                 Inr (foldl (\<lambda>c index. splice1 index c) copy' (tl toRemove) @ [rng])))"

definition nextState :: "Tree \<Rightarrow> TreeSelectionState \<Rightarrow> Selection \<Rightarrow> error + TreeSelectionState" where
  "nextState t selectionStack selection =
     (case selection of
        reset \<Rightarrow> Inr handleReset
      | Selection s \<Rightarrow>
         (case type s of
            None \<Rightarrow> Inr (handleDefault (node s))
          | Some DEFAULT \<Rightarrow> Inr (handleDefault (node s))
          | Some TOGGLE \<Rightarrow> handleToggle t selectionStack (node s)
          | Some RANGE \<Rightarrow> handleRange t selectionStack (node s)))"

text \<open>The chain \<open>state.nextState(g1).nextState(g2)...\<close> of the tests.\<close>

fun nextStates :: "Tree \<Rightarrow> TreeSelectionState \<Rightarrow> Selection list \<Rightarrow> error + TreeSelectionState" where
  "nextStates t s [] = Inr s"
| "nextStates t s (g # gs) =
     (case nextState t s g of Inl e \<Rightarrow> Inl e | Inr s' \<Rightarrow> nextStates t s' gs)"

definition toggleSelection :: "node_id \<Rightarrow> Selection" where
  "toggleSelection i = Selection \<lparr>node = i, type = Some TOGGLE\<rparr>"

definition rangeSelection :: "node_id \<Rightarrow> Selection" where
  "rangeSelection i = Selection \<lparr>node = i, type = Some RANGE\<rparr>"

definition defaultSelection :: "node_id \<Rightarrow> Selection" where
  "defaultSelection i = Selection \<lparr>node = i, type = Some DEFAULT\<rparr>"

text \<open>The projection \<open>asArray\<close> of the state reached from the empty state.\<close>

definition projectionAfter :: "Tree \<Rightarrow> Selection list \<Rightarrow> error + node_id list" where
  "projectionAfter t gs =
     (case nextStates t [] gs of Inl e \<Rightarrow> Inl e | Inr s \<Rightarrow> asArray t s)"

section \<open>The selection service over the state\<close>

text \<open>
  The service holds the current state; the \<open>selected\<close> flags it writes on the nodes and
  the events it fires (oldest first) are kept beside it.
\<close>

record TreeSelectionServiceImpl =
  state :: TreeSelectionState
  selected :: "node_id \<Rightarrow> bool"
  fired :: "node_id list list"

definition difference :: "'a list \<Rightarrow> 'a list \<Rightarrow> 'a list" where
  "difference left right = filter (\<lambda>item. indexOf right item = - 1) left"

definition setFlags :: "node_id list \<Rightarrow> bool \<Rightarrow> (node_id \<Rightarrow> bool) \<Rightarrow> (node_id \<Rightarrow> bool)" where
  "setFlags nodes b flags = (\<lambda>n. if n \<in> set nodes then b else flags n)"

definition addSelection ::
  "Tree \<Rightarrow> TreeSelectionServiceImpl \<Rightarrow> Selection \<Rightarrow> error + TreeSelectionServiceImpl" where
  "addSelection t svc selection =
     (if (case selection of reset \<Rightarrow> False | Selection s \<Rightarrow> validateNode t (node s) = None)
      then Inr svc
      else
        (case nextState t (state svc) selection of
           Inl e \<Rightarrow> Inl e
         | Inr newState \<Rightarrow>
            (case asArray t (state svc) of
               Inl e \<Rightarrow> Inl e
             | Inr oldNodes \<Rightarrow>
                (case asArray t newState of
                   Inl e \<Rightarrow> Inl e
                 | Inr newNodes \<Rightarrow>
                    (let toUnselect = difference oldNodes newNodes;
                         toSelect = difference newNodes oldNodes
                     in if length toUnselect = 0 \<and> length toSelect = 0 then Inr svc
                        else Inr \<lparr>state = newState,
                                  selected = setFlags toSelect True
                                               (setFlags toUnselect False (selected svc)),
                                  fired = fired svc @ [newNodes]\<rparr>)))))"

definition selectedNodes :: "Tree \<Rightarrow> TreeSelectionServiceImpl \<Rightarrow> error + node_id list" where
  "selectedNodes t svc = asArray t (state svc)"

text \<open>The getter \<open>selectedNodes\<close> on the outcome of a call of the service.\<close>

definition selectedNodesAfter ::
  "Tree \<Rightarrow> error + TreeSelectionServiceImpl \<Rightarrow> error + node_id list" where
  "selectedNodesAfter t r = (case r of Inl e \<Rightarrow> Inl e | Inr svc \<Rightarrow> selectedNodes t svc)"

fun addSelections ::
  "Tree \<Rightarrow> TreeSelectionServiceImpl \<Rightarrow> Selection list \<Rightarrow> error + TreeSelectionServiceImpl" where
  "addSelections t svc [] = Inr svc"
| "addSelections t svc (g # gs) =
     (case addSelection t svc g of Inl e \<Rightarrow> Inl e | Inr svc' \<Rightarrow> addSelections t svc' gs)"

text \<open>
  \<open>setSelection\<close> in the words of the spec: \<open>RESET\<close> followed by a \<open>DEFAULT\<close> gesture per
  node in reverse order.
\<close>

definition setSelection_spec ::
  "Tree \<Rightarrow> TreeSelectionServiceImpl \<Rightarrow> node_id list \<Rightarrow> error + TreeSelectionServiceImpl" where
  "setSelection_spec t svc nodes = addSelections t svc (reset # map defaultSelection (rev nodes))"

section \<open>The list-based selection service and the tree model\<close>

text \<open>
  The list-based service keeps the selected nodes in the array \<open>_selectedNodes\<close>;
  \<open>setSelection\<close> replaces its content by the valid selectable nodes of the argument, and
  the result here is the new content of that array.
\<close>

definition setSelection :: "Tree \<Rightarrow> node_id list \<Rightarrow> node_id list" where
  "setSelection t nodes =
     filter (SelectableTreeNode_is t)
       (filter (\<lambda>n. case validateNode t n of None \<Rightarrow> False | Some _ \<Rightarrow> True) nodes)"

text \<open>\<open>TreeModelImpl.selectionRange(toNode, fromNode)\<close>.\<close>

definition TreeModel_selectionRange :: "Tree \<Rightarrow> node_id \<Rightarrow> node_id option \<Rightarrow> node_id list" where
  "TreeModel_selectionRange t toNode fromNode =
     (case fromNode of None \<Rightarrow> []
      | Some f \<Rightarrow> if toNode = f then [] else orderedRange t f toNode)"

text \<open>
  The loop \<open>for (const node of copy)\<close> of \<open>selectRange\<close>, which splices \<open>copy\<close> while it
  iterates over it: \<open>i\<close> is the position of the array iterator.
\<close>

function selectRangeLoop :: "node_id list \<Rightarrow> nat \<Rightarrow> node_id list \<Rightarrow> node_id list" where
  "selectRangeLoop rng i copy =
     (if i < length copy then
        selectRangeLoop rng (Suc i)
          (if indexOf rng (copy ! i) \<noteq> - 1
           then splice1 (nat (indexOf rng (copy ! i))) copy else copy)
      else copy)"
  by pat_completeness auto
termination
  by (relation "measure (\<lambda>(rng, i, copy). length copy - i)") (auto simp: splice1_def)

definition selectRange ::
  "Tree \<Rightarrow> node_id list \<Rightarrow> node_id \<Rightarrow> node_id option \<Rightarrow> bool \<Rightarrow> node_id list" where
  "selectRange t selNodes toNode fromNode preserveSelection =
     (let rng = rev (TreeModel_selectionRange t toNode
                      (case fromNode of Some f \<Rightarrow> Some f
                       | None \<Rightarrow> (case selNodes of [] \<Rightarrow> None | n # _ \<Rightarrow> Some n)))
      in if length rng = 0 then selNodes
         else if preserveSelection
           then setSelection t (rng @ selectRangeLoop rng 0 selNodes)
           else setSelection t rng)"

text \<open>
  Modelled from the spec: \<open>CompositeTreeNode.isAncestor\<close> of \<open>tree.ts\<close>, the transitive
  closure of the parent relation. \<open>ancestorsIn x n\<close> is the list of the ancestors of the
  node \<open>x\<close> inside the subtree \<open>n\<close>, outermost first.
\<close>

fun firstSome :: "'a option list \<Rightarrow> 'a option" where
  "firstSome [] = None"
| "firstSome (None # os) = firstSome os"
| "firstSome (Some x # os) = Some x"

fun ancestorsIn :: "node_id \<Rightarrow> TreeNode \<Rightarrow> TreeNode list option" where
  "ancestorsIn x (TreeNode i s e v cs) =
     (if i = x then Some []
      else (case firstSome (map (ancestorsIn x) cs) of
              None \<Rightarrow> None
            | Some p \<Rightarrow> Some (TreeNode i s e v cs # p)))"

definition ancestors :: "Tree \<Rightarrow> node_id \<Rightarrow> TreeNode list" where
  "ancestors t x =
     (case root t of None \<Rightarrow> []
      | Some r \<Rightarrow> (case ancestorsIn x r of None \<Rightarrow> [] | Some p \<Rightarrow> p))"

definition isAncestor :: "Tree \<Rightarrow> node_id \<Rightarrow> node_id \<Rightarrow> bool" where
  "isAncestor t parent child = (parent \<in> set (map nid (ancestors t child)))"

text \<open>
  Modelled from the spec: \<open>TreeNode.isVisible\<close> of \<open>tree.ts\<close>. A node is visible iff it
  and all its ancestors are visible and its ancestors are expanded where expandable.
\<close>

definition TreeNode_isVisible :: "Tree \<Rightarrow> node_id \<Rightarrow> bool" where
  "TreeNode_isVisible t n =
     (case getNode t n of
        None \<Rightarrow> False
      | Some x \<Rightarrow>
          visible x \<and> list_all (\<lambda>a. visible a \<and> expansion a \<noteq> Some False) (ancestors t n))"

definition SelectableTreeNode_isVisible :: "Tree \<Rightarrow> node_id \<Rightarrow> bool" where
  "SelectableTreeNode_isVisible t n = (SelectableTreeNode_is t n \<and> TreeNode_isVisible t n)"

text \<open>The property \<open>expanded\<close> of the node with that id; false when it has none.\<close>

definition expanded :: "Tree \<Rightarrow> node_id \<Rightarrow> bool" where
  "expanded t n = (case getNode t n of None \<Rightarrow> False | Some x \<Rightarrow> expansion x = Some True)"

text \<open>
  The listener that \<open>TreeModelImpl.init\<close> registers on \<open>onExpansionChanged\<close>, on the
  array of selected nodes of the list-based service.
\<close>

definition onExpansionChanged :: "Tree \<Rightarrow> node_id list \<Rightarrow> node_id \<Rightarrow> node_id list" where
  "onExpansionChanged t selNodes n =
     (if \<not> expanded t n \<and> list_ex (\<lambda>selectedNode. isAncestor t n selectedNode) selNodes
      then (if SelectableTreeNode_isVisible t n then setSelection t [n] else selNodes)
      else selNodes)"

section \<open>The mock tree of the tests\<close>

text \<open>
  Modelled from the spec: \<open>MOCK_ROOT\<close>, root \<open>1\<close> with children \<open>1.1\<close> (\<open>1.1.1\<close>,
  \<open>1.1.2\<close>), \<open>1.2\<close> (\<open>1.2.1\<close> (\<open>1.2.1.1\<close>, \<open>1.2.1.2\<close>), \<open>1.2.2\<close>, \<open>1.2.3\<close>) and \<open>1.3\<close>,
  every node selectable, visible and expanded.
\<close>

definition mockNode :: "node_id \<Rightarrow> TreeNode list \<Rightarrow> TreeNode" where
  "mockNode i cs = TreeNode i True (Some True) True cs"

definition MOCK_ROOT :: TreeNode where
  "MOCK_ROOT =
     mockNode ''1''
       [mockNode ''1.1'' [mockNode ''1.1.1'' [], mockNode ''1.1.2'' []],
        mockNode ''1.2''
          [mockNode ''1.2.1'' [mockNode ''1.2.1.1'' [], mockNode ''1.2.1.2'' []],
           mockNode ''1.2.2'' [],
           mockNode ''1.2.3'' []],
        mockNode ''1.3'' []]"

definition mockTree :: Tree where
  "mockTree = \<lparr>root = Some MOCK_ROOT\<rparr>"

text \<open>The mock tree after \<open>collapseNode\<close> on \<open>1.2.1\<close>.\<close>

definition MOCK_ROOT_collapsed :: TreeNode where
  "MOCK_ROOT_collapsed =
     mockNode ''1''
       [mockNode ''1.1'' [mockNode ''1.1.1'' [], mockNode ''1.1.2'' []],
        mockNode ''1.2''
          [TreeNode ''1.2.1'' True (Some False) True
             [mockNode ''1.2.1.1'' [], mockNode ''1.2.1.2'' []],
           mockNode ''1.2.2'' [],
           mockNode ''1.2.3'' []],
        mockNode ''1.3'' []]"

definition mockTreeCollapsed :: Tree where
  "mockTreeCollapsed = \<lparr>root = Some MOCK_ROOT_collapsed\<rparr>"

text \<open>
  A tree whose node \<open>1.2\<close> is a plain tree node without the property \<open>selected\<close>, between
  the selectable leaves \<open>1.1\<close> and \<open>1.3\<close>; every node is visible and the root is expanded.
\<close>

definition PLAIN_ROOT :: TreeNode where
  "PLAIN_ROOT =
     mockNode ''1''
       [mockNode ''1.1'' [], TreeNode ''1.2'' False None True [], mockNode ''1.3'' []]"

definition plainNodeTree :: Tree where
  "plainNodeTree = \<lparr>root = Some PLAIN_ROOT\<rparr>"

text \<open>
  A service whose state is the stack TOGGLE 1, TOGGLE 1.1, RANGE 1.2 over the mock tree.
\<close>

definition rangedService :: TreeSelectionServiceImpl where
  "rangedService =
     \<lparr>state = [toggle ''1'', toggle ''1.1'', \<lparr>node = ''1.2'', type = Some RANGE\<rparr>],
      selected = (\<lambda>n. n \<in> set [''1'', ''1.1'', ''1.1.1'', ''1.1.2'', ''1.2'']),
      fired = []\<rparr>"

text \<open>The service after \<open>init\<close>: the empty state, no node flagged, nothing fired.\<close>

definition initialService :: TreeSelectionServiceImpl where
  "initialService = \<lparr>state = [], selected = (\<lambda>n. False), fired = []\<rparr>"

section \<open>Reachable states\<close>

text \<open>
  Reachability. A state is reachable when \<open>nextState\<close> leads to it from the empty state;
  the tree may be different at each step, as the tree of the source is mutable. A state is
  anchored when, on the way, no RANGE gesture was applied to the empty stack.
\<close>

definition isRange :: "Selection \<Rightarrow> bool" where
  "isRange g = (case g of reset \<Rightarrow> False | Selection x \<Rightarrow> type x = Some RANGE)"

inductive reachable :: "TreeSelectionState \<Rightarrow> bool" where
  reachable_empty: "reachable []"
| reachable_next: "reachable s \<Longrightarrow> nextState t s g = Inr s' \<Longrightarrow> reachable s'"

inductive anchored :: "TreeSelectionState \<Rightarrow> bool" where
  anchored_empty: "anchored []"
| anchored_next:
    "anchored s \<Longrightarrow> nextState t s g = Inr s' \<Longrightarrow> \<not> (s = [] \<and> isRange g) \<Longrightarrow> anchored s'"

text \<open>The two invariants of the data model of the spec.\<close>

definition noDefault :: "TreeSelectionState \<Rightarrow> bool" where
  "noDefault s = list_all (\<lambda>x. type x = Some TOGGLE \<or> type x = Some RANGE) s"

definition rangeNotFirst :: "TreeSelectionState \<Rightarrow> bool" where
  "rangeNotFirst s = (case s of [] \<Rightarrow> True | x # _ \<Rightarrow> type x = Some TOGGLE)"

text \<open>
  The states reached from the empty state without any RANGE gesture, that is by TOGGLE
  and DEFAULT gestures and \<open>reset\<close>.
\<close>

inductive toggled :: "TreeSelectionState \<Rightarrow> bool" where
  toggled_empty: "toggled []"
| toggled_next: "toggled s \<Longrightarrow> \<not> isRange g \<Longrightarrow> nextState t s g = Inr s' \<Longrightarrow> toggled s'"

text \<open>
  The indices below \<open>i\<close> of the elements that satisfy \<open>P\<close>, highest first: the shape of
  the lists \<open>toRemove\<close> that the loops of \<open>handleToggle\<close> and \<open>handleRange\<close> collect on a
  stack without ranges.
\<close>

fun indicesWhere :: "('a \<Rightarrow> bool) \<Rightarrow> 'a list \<Rightarrow> nat \<Rightarrow> nat list" where
  "indicesWhere P xs 0 = []"
| "indicesWhere P xs (Suc i) = (if P (xs ! i) then [i] else []) @ indicesWhere P xs i"

section \<open>Basic facts\<close>

lemma indexOf_ge: "- 1 \<le> indexOf xs x"
  by (induction xs) (auto simp: Let_def)

lemma indexOf_minus1: "indexOf xs x = - 1 \<longleftrightarrow> x \<notin> set xs"
proof (induction xs)
  case Nil
  show ?case by simp
next
  case (Cons y ys)
  have "- 1 \<le> indexOf ys x" by (rule indexOf_ge)
  with Cons show ?case by (auto simp: Let_def)
qed

lemma difference_Nil: "difference left right = [] \<longleftrightarrow> set left \<subseteq> set right"
  by (auto simp: difference_def indexOf_minus1 filter_empty_conv)

lemma firstSome_mem: "firstSome os = Some p \<Longrightarrow> Some p \<in> set os"
  by (induction os rule: firstSome.induct) auto

lemma ancestorsIn_subset:
  "ancestorsIn x n = Some p \<Longrightarrow> set p \<subseteq> set (PreOrderTreeIterator False n)"
proof (induction n arbitrary: p)
  case (TreeNode i s e v cs)
  show ?case
  proof (cases "i = x")
    case True
    with TreeNode.prems show ?thesis by simp
  next
    case False
    with TreeNode.prems obtain q where
      q: "firstSome (map (ancestorsIn x) cs) = Some q" and p: "p = TreeNode i s e v cs # q"
      by (auto split: option.splits)
    from firstSome_mem[OF q] obtain c where c: "c \<in> set cs" "ancestorsIn x c = Some q"
      by auto
    from TreeNode.IH[OF c] have "set q \<subseteq> set (PreOrderTreeIterator False c)" .
    with c(1) p show ?thesis by auto
  qed
qed

lemma isAncestor_validateNode:
  assumes "isAncestor t e s"
  shows "validateNode t e = Some e"
proof (cases "root t")
  case None
  with assms show ?thesis by (simp add: isAncestor_def ancestors_def)
next
  case (Some r)
  show ?thesis
  proof (cases "ancestorsIn s r")
    case None
    with Some assms show ?thesis by (simp add: isAncestor_def ancestors_def)
  next
    case (Some p)
    with \<open>root t = Some r\<close> assms have "e \<in> nid ` set p"
      by (simp add: isAncestor_def ancestors_def)
    with ancestorsIn_subset[OF Some] have "e \<in> nid ` set (PreOrderTreeIterator False r)"
      by auto
    with \<open>root t = Some r\<close> show ?thesis by (simp add: validateNode_def allNodes_def)
  qed
qed

lemma asArray_Nil: "asArray t [] = Inr []"
  by (simp add: asArray_def checkNoDefaultSelection_def)

lemma asArray_toggle: "asArray t [toggle n] = Inr [n]"
  by (simp add: asArray_def checkNoDefaultSelection_def toggle_def)

lemma difference_Nil_right: "difference xs [] = xs"
  by (simp add: difference_def)

lemma addSelection_reset:
  assumes "asArray t (state svc) = Inr old"
  shows "\<exists>svc'. addSelection t svc reset = Inr svc' \<and> asArray t (state svc') = Inr []"
proof (cases "old = []")
  case True
  with assms have "addSelection t svc reset = Inr svc"
    by (simp add: addSelection_def nextState_def handleReset_def asArray_Nil difference_def)
  with assms True show ?thesis by simp
next
  case False
  with assms show ?thesis
    by (simp add: addSelection_def nextState_def handleReset_def asArray_Nil
        difference_Nil_right Let_def)
qed

lemma addSelection_default:
  assumes "asArray t (state svc) = Inr [] \<or> (\<exists>m. state svc = [toggle m])"
    and "validateNode t n = Some n"
  shows "\<exists>svc'. addSelection t svc (defaultSelection n) = Inr svc' \<and> state svc' = [toggle n]"
proof -
  have nx: "nextState t (state svc) (defaultSelection n) = Inr [toggle n]"
    by (simp add: nextState_def defaultSelection_def handleDefault_def)
  from assms(1) show ?thesis
  proof
    assume "asArray t (state svc) = Inr []"
    with nx assms(2) show ?thesis
      by (simp add: addSelection_def defaultSelection_def asArray_toggle difference_def Let_def)
  next
    assume "\<exists>m. state svc = [toggle m]"
    then obtain m where m: "state svc = [toggle m]" ..
    show ?thesis
    proof (cases "m = n")
      case True
      with m nx assms(2) show ?thesis
        by (simp add: addSelection_def defaultSelection_def asArray_toggle difference_def Let_def)
    next
      case False
      with m nx assms(2) show ?thesis
        by (simp add: addSelection_def defaultSelection_def asArray_toggle difference_def Let_def)
    qed
  qed
qed

lemma addSelections_defaults:
  assumes "asArray t (state svc) = Inr [] \<or> (\<exists>m. state svc = [toggle m])"
    and "\<forall>n\<in>set ns. validateNode t n = Some n"
    and "ns \<noteq> []"
  shows "\<exists>svc'. addSelections t svc (map defaultSelection ns) = Inr svc'
           \<and> state svc' = [toggle (last ns)]"
  using assms
proof (induction ns arbitrary: svc)
  case Nil
  then show ?case by simp
next
  case (Cons n ns)
  from addSelection_default[OF Cons.prems(1)] Cons.prems(2)
  obtain svc1 where s1: "addSelection t svc (defaultSelection n) = Inr svc1"
    and st: "state svc1 = [toggle n]" by auto
  show ?case
  proof (cases "ns = []")
    case True
    with s1 st show ?thesis by simp
  next
    case False
    from st have "asArray t (state svc1) = Inr [] \<or> (\<exists>m. state svc1 = [toggle m])" by blast
    from Cons.IH[OF this _ False] Cons.prems(2)
    obtain svc' where "addSelections t svc1 (map defaultSelection ns) = Inr svc'"
      "state svc' = [toggle (last ns)]" by auto
    with s1 False show ?thesis by simp
  qed
qed

lemma setSelection_valid:
  "\<forall>n\<in>set ns. validateNode t n = Some n \<and> SelectableTreeNode_is t n \<Longrightarrow> setSelection t ns = ns"
  by (induction ns) (auto simp: setSelection_def)

lemma isBorder_commute: "isBorder a b n = isBorder b a n"
  by (auto simp: isBorder_def)

lemma rangeLoop_commute: "rangeLoop a b s f xs = rangeLoop b a s f xs"
  by (induction xs arbitrary: s f) (simp_all add: isBorder_commute[of a b])

lemma rangeLoop_finished: "rangeLoop a b s True xs = []"
  by (cases xs) simp_all

lemma rangeLoop_skip:
  "\<forall>n\<in>set xs. \<not> isBorder a b n \<Longrightarrow>
   rangeLoop a b False False (xs @ rest) = rangeLoop a b False False rest"
  by (induction xs) simp_all

lemma rangeLoop_inside:
  "\<forall>n\<in>set ys. \<not> isBorder a b n \<Longrightarrow>
   rangeLoop a b True False (ys @ rest) = ys @ rangeLoop a b True False rest"
  by (induction ys) simp_all

lemma rangeLoop_between:
  assumes "\<forall>n\<in>set xs. \<not> isBorder a b n" "\<forall>n\<in>set ys. \<not> isBorder a b n"
    and "isBorder a b na" "isBorder a b nb"
  shows "rangeLoop a b False False (xs @ na # ys @ nb # zs) = na # ys @ [nb]"
  using assms by (simp add: rangeLoop_skip rangeLoop_inside rangeLoop_finished)

lemma rangeLoop_no_border:
  "a \<notin> nid ` set (rangeLoop a b False False xs) \<Longrightarrow>
   b \<notin> nid ` set (rangeLoop a b False False xs) \<Longrightarrow>
   rangeLoop a b False False xs = []"
  by (induction xs) (auto simp: isBorder_def split: if_splits)

lemma indexOf_append_notin: "x \<notin> set xs \<Longrightarrow> indexOf (xs @ x # zs) x = int (length xs)"
  by (induction xs) (auto simp: Let_def)

lemma indexOf_same: "indexOf xs a = indexOf xs b \<Longrightarrow> a \<noteq> b \<Longrightarrow> indexOf xs a = - 1"
proof (induction xs)
  case Nil
  show ?case by simp
next
  case (Cons y ys)
  have ga: "- 1 \<le> indexOf ys a" and gb: "- 1 \<le> indexOf ys b" by (rule indexOf_ge)+
  from Cons ga gb show ?case by (auto simp: Let_def split: if_splits)
qed

lemma pruned_subset:
  "set (PreOrderTreeIterator True n) \<subseteq> set (PreOrderTreeIterator False n)"
  by (induction n) auto

lemma distinct_concat_mono:
  assumes "\<And>c. c \<in> set cs \<Longrightarrow> set (f c) \<subseteq> set (g c)"
    and "\<And>c. c \<in> set cs \<Longrightarrow> distinct (map h (g c)) \<Longrightarrow> distinct (map h (f c))"
    and "distinct (map h (concat (map g cs)))"
  shows "distinct (map h (concat (map f cs)))"
  using assms
proof (induction cs)
  case Nil
  show ?case by simp
next
  case (Cons c cs)
  from Cons.prems(3) have d1: "distinct (map h (g c))"
    and d2: "distinct (map h (concat (map g cs)))"
    and d3: "h ` set (g c) \<inter> h ` (\<Union>x\<in>set cs. set (g x)) = {}"
    by auto
  have "distinct (map h (f c))" using Cons.prems(2)[of c] d1 by simp
  moreover have "distinct (map h (concat (map f cs)))"
    using Cons.IH Cons.prems(1,2) d2 by simp
  moreover have "h ` set (f c) \<inter> h ` (\<Union>x\<in>set cs. set (f x)) = {}"
  proof -
    have "set (f c) \<subseteq> set (g c)" using Cons.prems(1)[of c] by simp
    moreover have "(\<Union>x\<in>set cs. set (f x)) \<subseteq> (\<Union>x\<in>set cs. set (g x))"
      using Cons.prems(1) by fastforce
    ultimately show ?thesis using d3 by blast
  qed
  ultimately show ?case by auto
qed

lemma pruned_distinct:
  "distinct (map nid (PreOrderTreeIterator False n)) \<Longrightarrow>
   distinct (map nid (PreOrderTreeIterator True n))"
proof (induction n)
  case (TreeNode i s e v cs)
  from TreeNode.prems have d: "distinct (map nid (concat (map (PreOrderTreeIterator False) cs)))"
    and ni: "i \<notin> nid ` (\<Union>c\<in>set cs. set (PreOrderTreeIterator False c))"
    by auto
  have "distinct (map nid (concat (map (PreOrderTreeIterator True) cs)))"
    by (rule distinct_concat_mono[OF _ _ d]) (auto intro: TreeNode.IH pruned_subset[THEN subsetD])
  moreover have "i \<notin> nid ` (\<Union>c\<in>set cs. set (PreOrderTreeIterator True c))"
    using ni pruned_subset by fastforce
  ultimately show ?case by auto
qed

lemma validateNode_cases: "validateNode t n = None \<or> validateNode t n = Some n"
  by (simp add: validateNode_def)

lemma orderedRange_rev:
  assumes "a \<noteq> b"
  shows "orderedRange t a b = rev (orderedRange t b a)"
proof (cases "root t")
  case None
  then show ?thesis by (simp add: orderedRange_def)
next
  case (Some r)
  define R where "R = rangeLoop a b False False (PreOrderTreeIterator True r)"
  have R': "rangeLoop b a False False (PreOrderTreeIterator True r) = R"
    by (simp add: R_def rangeLoop_commute[of b a])
  consider (inv) "validateNode t a = None \<or> validateNode t b = None"
    | (val) "validateNode t a = Some a" "validateNode t b = Some b"
    using validateNode_cases[of t a] validateNode_cases[of t b] by auto
  then show ?thesis
  proof cases
    case inv
    with Some show ?thesis by (auto simp: orderedRange_def split: option.splits)
  next
    case val
    let ?ia = "indexOf (map nid R) a" and ?ib = "indexOf (map nid R) b"
    have ab: "orderedRange t a b
        = map nid (filter selectable (if ?ia > ?ib then rev R else R))"
      using Some val by (simp add: orderedRange_def R_def Let_def)
    have ba: "orderedRange t b a
        = map nid (filter selectable (if ?ib > ?ia then rev R else R))"
      using Some val by (simp add: orderedRange_def R' Let_def)
    consider "?ia > ?ib" | "?ib > ?ia" | "?ia = ?ib" by linarith
    then show ?thesis
    proof cases
      case 1
      with ab ba show ?thesis by (simp add: rev_map rev_filter)
    next
      case 2
      with ab ba show ?thesis by (simp add: rev_map rev_filter)
    next
      case 3
      from 3 assms have "?ia = - 1" by (rule indexOf_same)
      with 3 have "?ib = - 1" by simp
      with \<open>?ia = - 1\<close> have "a \<notin> nid ` set R" "b \<notin> nid ` set R"
        using indexOf_minus1[of "map nid R" a] indexOf_minus1[of "map nid R" b] by simp_all
      then have "R = []" unfolding R_def by (rule rangeLoop_no_border)
      with ab ba show ?thesis by simp
    qed
  qed
qed

lemma TreeModel_selectionRange_rev:
  "TreeModel_selectionRange t b (Some a) = rev (TreeModel_selectionRange t a (Some b))"
proof (cases "a = b")
  case True
  then show ?thesis by (simp add: TreeModel_selectionRange_def)
next
  case False
  then show ?thesis
    using orderedRange_rev[of a b t] by (auto simp: TreeModel_selectionRange_def)
qed

lemma orderedRange_between:
  assumes "wellFormed t" and "root t = Some r"
    and "PreOrderTreeIterator True r = xs @ na # ys @ nb # zs"
  shows "orderedRange t (nid na) (nid nb) = map nid (filter selectable (na # ys @ [nb]))"
proof -
  let ?a = "nid na" and ?b = "nid nb"
  from assms(1,2) have "distinct (map nid (PreOrderTreeIterator False r))"
    by (simp add: wellFormed_def allNodes_def)
  then have "distinct (map nid (PreOrderTreeIterator True r))" by (rule pruned_distinct)
  with assms(3) have d: "distinct (map nid xs @ ?a # map nid ys @ ?b # map nid zs)" by simp
  then have "?a \<notin> nid ` set xs" "?b \<notin> nid ` set xs" "?a \<notin> nid ` set ys" "?b \<notin> nid ` set ys"
    by auto
  then have nb: "\<forall>n\<in>set xs. \<not> isBorder ?a ?b n" "\<forall>n\<in>set ys. \<not> isBorder ?a ?b n"
    by (auto simp: isBorder_def intro: rev_image_eqI)
  have R: "rangeLoop ?a ?b False False (PreOrderTreeIterator True r) = na # ys @ [nb]"
    unfolding assms(3) by (rule rangeLoop_between[OF nb]) (simp_all add: isBorder_def)
  have "na \<in> set (PreOrderTreeIterator True r)" "nb \<in> set (PreOrderTreeIterator True r)"
    using assms(3) by simp_all
  then have "na \<in> set (allNodes t)" "nb \<in> set (allNodes t)"
    using pruned_subset[of r] assms(2) by (auto simp: allNodes_def)
  then have v: "validateNode t ?a = Some ?a" "validateNode t ?b = Some ?b"
    by (simp_all add: validateNode_def)
  have ia: "indexOf (map nid (na # ys @ [nb])) ?a = 0" by simp
  have "?b \<notin> set (?a # map nid ys)" using d by auto
  from indexOf_append_notin[OF this, of "[]"]
  have ib: "indexOf (map nid (na # ys @ [nb])) ?b = int (length ys) + 1" by simp
  show ?thesis using assms(2) v R ia ib by (simp add: orderedRange_def Let_def)
qed

lemma selectRangeLoop_disjoint:
  "\<forall>x\<in>set copy. x \<notin> set rng \<Longrightarrow> selectRangeLoop rng i copy = copy"
proof (induction rng i copy rule: selectRangeLoop.induct)
  case (1 rng i copy)
  show ?case
  proof (cases "i < length copy")
    case True
    then have "copy ! i \<in> set copy" by simp
    with "1.prems" have "indexOf rng (copy ! i) = - 1" by (simp add: indexOf_minus1)
    with True "1.IH" "1.prems" show ?thesis
      by (subst selectRangeLoop.simps) simp
  next
    case False
    then show ?thesis by (subst selectRangeLoop.simps) simp
  qed
qed

lemma rangeLoop_subset: "set (rangeLoop a b s f xs) \<subseteq> set xs"
  by (induction xs arbitrary: s f) auto

lemma find_distinct:
  "distinct (map f xs) \<Longrightarrow> n \<in> set xs \<Longrightarrow> find (\<lambda>m. f m = f n) xs = Some n"
  by (induction xs) (auto intro: rev_image_eqI)

lemma getNode_wellFormed:
  "wellFormed t \<Longrightarrow> n \<in> set (allNodes t) \<Longrightarrow> getNode t (nid n) = Some n"
  by (simp add: wellFormed_def getNode_def find_distinct)

lemma orderedRange_set:
  "set (orderedRange t a b)
     \<subseteq> nid ` {n \<in> set (allNodes t). selectable n \<and> n \<in> set (case root t of None \<Rightarrow> []
          | Some r \<Rightarrow> PreOrderTreeIterator True r)}"
proof (cases "root t")
  case None
  then show ?thesis by (simp add: orderedRange_def)
next
  case (Some r)
  consider (inv) "validateNode t a = None \<or> validateNode t b = None"
    | (val) "validateNode t a = Some a" "validateNode t b = Some b"
    using validateNode_cases[of t a] validateNode_cases[of t b] by auto
  then show ?thesis
  proof cases
    case inv
    with Some show ?thesis by (auto simp: orderedRange_def split: option.splits)
  next
    case val
    have "set (rangeLoop a b False False (PreOrderTreeIterator True r))
        \<subseteq> set (PreOrderTreeIterator True r)" by (rule rangeLoop_subset)
    moreover have "set (PreOrderTreeIterator True r) \<subseteq> set (allNodes t)"
      using Some pruned_subset[of r] by (simp add: allNodes_def)
    ultimately show ?thesis using Some val
      by (auto simp: orderedRange_def Let_def)
  qed
qed

lemma orderedRange_nodes:
  assumes "wellFormed t" and "x \<in> set (orderedRange t a b)"
  shows "validateNode t x = Some x \<and> SelectableTreeNode_is t x"
proof -
  from assms(2) orderedRange_set[of t a b]
  obtain n where m: "n \<in> set (allNodes t)" and n: "selectable n" "x = nid n"
    by auto
  from m n(2) have "validateNode t x = Some x" by (simp add: validateNode_def)
  moreover from getNode_wellFormed[OF assms(1) m] n have "SelectableTreeNode_is t x"
    by (simp add: SelectableTreeNode_is_def)
  ultimately show ?thesis ..
qed

lemma setSelection_append: "setSelection t (xs @ ys) = setSelection t xs @ setSelection t ys"
  by (simp add: setSelection_def)

lemma type_cases:
  "type x = None \<or> type x = Some DEFAULT \<or> type x = Some TOGGLE \<or> type x = Some RANGE"
  by (cases "type x") (auto intro: SelectionType.exhaust)

lemma checkNoDefaultSelection_iff: "checkNoDefaultSelection s = Inr c \<longleftrightarrow> c = s \<and> noDefault s"
proof -
  have "list_ex (\<lambda>x. type x = None \<or> type x = Some DEFAULT) s \<longleftrightarrow> \<not> noDefault s"
    unfolding noDefault_def list_ex_iff list_all_iff using type_cases by fastforce
  then show ?thesis by (auto simp: checkNoDefaultSelection_def)
qed

lemma checkNoDefaultSelection_Inl: "checkNoDefaultSelection s = Inl e \<Longrightarrow> \<not> noDefault s"
  using checkNoDefaultSelection_iff[of s s] by (auto simp: checkNoDefaultSelection_def split: if_splits)

lemma noDefault_toggle: "noDefault (map toggle ys)"
  by (simp add: noDefault_def toggle_def list_all_iff)

lemma noDefault_append: "noDefault (xs @ ys) \<longleftrightarrow> noDefault xs \<and> noDefault ys"
  by (simp add: noDefault_def)

lemma noDefault_subset: "noDefault xs \<Longrightarrow> set ys \<subseteq> set xs \<Longrightarrow> noDefault ys"
  by (auto simp: noDefault_def list_all_iff)

lemma splice1_Suc: "splice1 (Suc i) (x # xs) = x # splice1 i xs"
  by (simp add: splice1_def)

lemma set_splice1: "set (splice1 i xs) \<subseteq> set xs"
  by (auto simp: splice1_def dest: in_set_takeD in_set_dropD)

lemma length_splice1: "length xs - 1 \<le> length (splice1 i xs)"
  by (simp add: splice1_def)

lemma set_foldl_splice1: "set (foldl (\<lambda>c i. splice1 i c) c is) \<subseteq> set c"
proof (induction "is" arbitrary: c)
  case Nil
  show ?case by simp
next
  case (Cons i "is")
  have "set (foldl (\<lambda>c i. splice1 i c) (splice1 i c) is) \<subseteq> set (splice1 i c)"
    by (rule Cons.IH)
  with set_splice1[of i c] show ?case by auto
qed

lemma length_foldl_splice1: "length c - length is \<le> length (foldl (\<lambda>c i. splice1 i c) c is)"
proof (induction "is" arbitrary: c)
  case Nil
  show ?case by simp
next
  case (Cons i "is")
  have "length (splice1 i c) - length is \<le> length (foldl (\<lambda>c i. splice1 i c) (splice1 i c) is)"
    by (rule Cons.IH)
  with length_splice1[of c i] show ?case by simp
qed

lemma hd_foldl_splice1:
  "\<forall>i\<in>set is. 0 < i \<Longrightarrow> \<exists>rest'. foldl (\<lambda>c i. splice1 i c) (h # rest) is = h # rest'"
proof (induction "is" arbitrary: rest)
  case Nil
  show ?case by simp
next
  case (Cons i "is")
  then obtain j where j: "i = Suc j" by (cases i) auto
  from Cons.prems have "\<forall>i\<in>set is. 0 < i" by simp
  from Cons.IH[OF this, of "splice1 j rest"] show ?case by (simp add: j splice1_Suc)
qed

lemma splitRange_shape:
  "splitRange t copy n k = Some c \<Longrightarrow>
   \<exists>i ys. i < k \<and> type (copy ! i) = Some RANGE
          \<and> c = take i copy @ map toggle ys @ drop (Suc i) copy"
proof (induction k)
  case 0
  then show ?case by simp
next
  case (Suc k)
  show ?case
  proof (cases "splitRange t copy n k = Some c")
    case True
    from Suc.IH[OF this] show ?thesis by (auto intro: less_SucI)
  next
    case False
    with Suc.prems have "type (copy ! k) = Some RANGE"
      by (auto simp: Let_def split: if_splits)
    moreover from False Suc.prems
    have "\<exists>ys. c = take k copy @ map toggle ys @ drop (Suc k) copy"
      by (auto simp: Let_def split: if_splits)
    ultimately show ?thesis by blast
  qed
qed

lemma toggleToRemove_bound:
  "i \<in> set (toggleToRemove copy n k) \<Longrightarrow>
   i < k \<and> (\<forall>j. i \<le> j \<and> j < k \<longrightarrow> type (copy ! j) \<noteq> Some RANGE)"
proof (induction k)
  case 0
  then show ?case by simp
next
  case (Suc k)
  then show ?case
    by (auto split: if_splits simp: less_Suc_eq)
qed

lemma inRange_Inr: "type rng = Some RANGE \<Longrightarrow> \<exists>b. inRange t rng from x = Inr b"
  by (auto simp: inRange_def split: option.splits)

lemma rangeToRemove_shape:
  assumes "type rng = Some RANGE" and "k \<le> length copy"
  shows "\<exists>c' is. rangeToRemove t rng from copy k = Inr (c', is) \<and>
     ((c' = copy \<and> length is \<le> k
        \<and> (\<forall>i\<in>set is. i < k \<and> (\<forall>j. i \<le> j \<and> j < k \<longrightarrow> type (copy ! j) \<noteq> Some RANGE)))
      \<or> (0 < k \<and> k = length copy \<and> type (copy ! (k - 1)) = Some RANGE
          \<and> c' = butlast copy \<and> is = []))"
  using assms(2)
proof (induction k)
  case 0
  show ?case by simp
next
  case (Suc k)
  show ?case
  proof (cases "type (copy ! k) = Some RANGE")
    case True
    with Suc.prems show ?thesis by auto
  next
    case False
    from inRange_Inr[OF assms(1)] obtain b where b: "inRange t rng from (node (copy ! k)) = Inr b"
      by blast
    from Suc.prems have "k \<le> length copy" "k \<noteq> length copy" by simp_all
    with Suc.IH obtain "is" where r: "rangeToRemove t rng from copy k = Inr (copy, is)"
      and l: "length is \<le> k"
      and i: "\<forall>i\<in>set is. i < k \<and> (\<forall>j. i \<le> j \<and> j < k \<longrightarrow> type (copy ! j) \<noteq> Some RANGE)"
      by auto
    let ?is = "(if b then [k] else []) @ is"
    have "rangeToRemove t rng from copy (Suc k) = Inr (copy, ?is)"
      using False b r by simp
    moreover have "length ?is \<le> Suc k" using l by simp
    moreover have "\<forall>i\<in>set ?is. i < Suc k
        \<and> (\<forall>j. i \<le> j \<and> j < Suc k \<longrightarrow> type (copy ! j) \<noteq> Some RANGE)"
      using i False by (auto simp: less_Suc_eq)
    ultimately show ?thesis by blast
  qed
qed

lemma rangeNotFirst_Cons: "rangeNotFirst (h # rest) \<longleftrightarrow> type h = Some TOGGLE"
  by (simp add: rangeNotFirst_def)

lemma rangeNotFirst_all_toggle:
  "\<forall>x\<in>set c. type x = Some TOGGLE \<Longrightarrow> rangeNotFirst c"
  by (cases c) (simp_all add: rangeNotFirst_def)

lemma all_toggle:
  assumes "noDefault copy" and "\<forall>j<length copy. type (copy ! j) \<noteq> Some RANGE"
  shows "\<forall>x\<in>set copy. type x = Some TOGGLE"
proof
  fix x assume "x \<in> set copy"
  then obtain j where j: "j < length copy" "copy ! j = x" by (auto simp: in_set_conv_nth)
  from \<open>x \<in> set copy\<close> assms(1) have "type x = Some TOGGLE \<or> type x = Some RANGE"
    by (simp add: noDefault_def list_all_iff)
  with assms(2) j show "type x = Some TOGGLE" by auto
qed

text \<open>Removing indices that lie above every range keeps the bottom of the stack a toggle.\<close>

lemma rangeNotFirst_removed:
  assumes "noDefault copy" and "rangeNotFirst copy"
    and "\<forall>i\<in>set is. \<forall>j. i \<le> j \<and> j < length copy \<longrightarrow> type (copy ! j) \<noteq> Some RANGE"
  shows "rangeNotFirst (foldl (\<lambda>c i. splice1 i c) copy is)"
proof (cases "\<forall>j<length copy. type (copy ! j) \<noteq> Some RANGE")
  case True
  with assms(1) have "\<forall>x\<in>set copy. type x = Some TOGGLE" by (rule all_toggle)
  with set_foldl_splice1[of copy "is"] show ?thesis
    by (intro rangeNotFirst_all_toggle) blast
next
  case False
  then obtain j where j: "j < length copy" "type (copy ! j) = Some RANGE" by blast
  then obtain h rest where c: "copy = h # rest" by (cases copy) auto
  have "\<forall>i\<in>set is. 0 < i"
  proof
    fix i assume "i \<in> set is"
    with assms(3) j have "\<not> i \<le> j" by blast
    then show "0 < i" by simp
  qed
  from hd_foldl_splice1[OF this, of h rest] obtain rest'
    where "foldl (\<lambda>c i. splice1 i c) (h # rest) is = h # rest'" ..
  with assms(2) c show ?thesis by (simp add: rangeNotFirst_Cons)
qed

lemma handleToggle_Inr_noDefault: "handleToggle t s n = Inr s' \<Longrightarrow> noDefault s"
  by (cases "checkNoDefaultSelection s")
     (auto simp: handleToggle_def checkNoDefaultSelection_iff)

lemma handleRange_Inr_noDefault: "handleRange t s n = Inr s' \<Longrightarrow> noDefault s"
  by (cases "checkNoDefaultSelection s")
     (auto simp: handleRange_def checkNoDefaultSelection_iff)

lemma handleToggle_noDefault:
  assumes "handleToggle t s n = Inr s'"
  shows "noDefault s'"
proof -
  from assms have nd: "noDefault s" by (rule handleToggle_Inr_noDefault)
  then have ck: "checkNoDefaultSelection s = Inr s" by (simp add: checkNoDefaultSelection_iff)
  show ?thesis
  proof (cases "splitRange t s n (length s)")
    case (Some c)
    from splitRange_shape[OF Some] obtain i ys where
      "c = take i s @ map toggle ys @ drop (Suc i) s" by blast
    moreover have "noDefault (take i s)" "noDefault (drop (Suc i) s)"
      using nd by (auto intro: noDefault_subset dest: in_set_takeD in_set_dropD)
    ultimately have "noDefault c" by (simp add: noDefault_append noDefault_toggle)
    with assms ck Some show ?thesis by (simp add: handleToggle_def)
  next
    case None
    let ?c = "foldl (\<lambda>c i. splice1 i c) s (toggleToRemove s n (length s))"
    have "noDefault ?c" using nd set_foldl_splice1 by (rule noDefault_subset)
    moreover have "noDefault [toggle n]" using noDefault_toggle[of "[n]"] by simp
    ultimately show ?thesis using assms ck None
      by (auto simp: handleToggle_def Let_def noDefault_append split: if_splits)
  qed
qed

lemma handleToggle_rangeNotFirst:
  assumes "handleToggle t s n = Inr s'" and "rangeNotFirst s"
  shows "rangeNotFirst s'"
proof -
  from assms(1) have nd: "noDefault s" by (rule handleToggle_Inr_noDefault)
  then have ck: "checkNoDefaultSelection s = Inr s" by (simp add: checkNoDefaultSelection_iff)
  show ?thesis
  proof (cases "splitRange t s n (length s)")
    case (Some c)
    from splitRange_shape[OF Some] obtain i ys where i: "i < length s"
      "type (s ! i) = Some RANGE" and c: "c = take i s @ map toggle ys @ drop (Suc i) s"
      by blast
    from i(1) obtain h rest where s: "s = h # rest" by (cases s) auto
    with assms(2) have h: "type h = Some TOGGLE" by (simp add: rangeNotFirst_Cons)
    with i(2) s obtain j where "i = Suc j" by (cases i) auto
    with c s h have "rangeNotFirst c" by (simp add: rangeNotFirst_Cons)
    with assms(1) ck Some show ?thesis by (simp add: handleToggle_def)
  next
    case None
    let ?is = "toggleToRemove s n (length s)"
    let ?c = "foldl (\<lambda>c i. splice1 i c) s ?is"
    have "\<forall>i\<in>set ?is. \<forall>j. i \<le> j \<and> j < length s \<longrightarrow> type (s ! j) \<noteq> Some RANGE"
      using toggleToRemove_bound[of _ s n "length s"] by blast
    with nd assms(2) have r: "rangeNotFirst ?c" by (rule rangeNotFirst_removed)
    show ?thesis
    proof (cases "?is = []")
      case True
      with assms(1) ck None have "s' = s @ [toggle n]" by (simp add: handleToggle_def)
      with assms(2) show ?thesis
        by (cases s) (simp_all add: rangeNotFirst_def toggle_def)
    next
      case False
      with assms(1) ck None have "s' = ?c" by (simp add: handleToggle_def Let_def)
      with r show ?thesis by simp
    qed
  qed
qed

lemma handleRange_result:
  assumes "handleRange t s n = Inr s'"
  shows "noDefault s \<and> (\<exists>c' is. s' = foldl (\<lambda>c i. splice1 i c) c' (tl is) @ [\<lparr>node = n, type = Some RANGE\<rparr>]
     \<and> ((c' = s \<and> length is \<le> length s
          \<and> (\<forall>i\<in>set is. \<forall>j. i \<le> j \<and> j < length s \<longrightarrow> type (s ! j) \<noteq> Some RANGE))
        \<or> (0 < length s \<and> type (s ! (length s - 1)) = Some RANGE \<and> c' = butlast s \<and> is = [])))"
proof -
  from assms have nd: "noDefault s" by (rule handleRange_Inr_noDefault)
  then have ck: "checkNoDefaultSelection s = Inr s" by (simp add: checkNoDefaultSelection_iff)
  let ?rng = "\<lparr>node = n, type = Some RANGE\<rparr>"
  let ?from = "if s = [] then None else Some (node (last s))"
  have "type ?rng = Some RANGE" by simp
  from rangeToRemove_shape[OF this order_refl, of t ?from s]
  obtain c' "is" where r: "rangeToRemove t ?rng ?from s (length s) = Inr (c', is)"
    and sh: "(c' = s \<and> length is \<le> length s
        \<and> (\<forall>i\<in>set is. i < length s
              \<and> (\<forall>j. i \<le> j \<and> j < length s \<longrightarrow> type (s ! j) \<noteq> Some RANGE)))
      \<or> (0 < length s \<and> length s = length s \<and> type (s ! (length s - 1)) = Some RANGE
          \<and> c' = butlast s \<and> is = [])"
    by blast
  from assms ck r have "s' = foldl (\<lambda>c i. splice1 i c) c' (tl is) @ [?rng]"
    by (simp add: handleRange_def Let_def)
  with nd sh show ?thesis by blast
qed

lemma handleRange_noDefault:
  assumes "handleRange t s n = Inr s'"
  shows "noDefault s'"
proof -
  from handleRange_result[OF assms] obtain c' "is" where nd: "noDefault s"
    and s': "s' = foldl (\<lambda>c i. splice1 i c) c' (tl is) @ [\<lparr>node = n, type = Some RANGE\<rparr>]"
    and c': "c' = s \<or> c' = butlast s" by blast
  from c' have "set c' \<subseteq> set s" by (auto dest: in_set_butlastD)
  with set_foldl_splice1[of c' "tl is"] have "set (foldl (\<lambda>c i. splice1 i c) c' (tl is)) \<subseteq> set s"
    by blast
  with nd have "noDefault (foldl (\<lambda>c i. splice1 i c) c' (tl is))" by (rule noDefault_subset)
  with s' show ?thesis by (simp add: noDefault_append) (simp add: noDefault_def)
qed

lemma handleRange_rangeNotFirst:
  assumes "handleRange t s n = Inr s'" and "rangeNotFirst s" and "s \<noteq> []"
  shows "rangeNotFirst s'"
proof -
  let ?rng = "\<lparr>node = n, type = Some RANGE\<rparr>"
  from assms(3) obtain h rest where s: "s = h # rest" by (cases s) auto
  with assms(2) have h: "type h = Some TOGGLE" by (simp add: rangeNotFirst_Cons)
  from handleRange_result[OF assms(1)] obtain c' "is" where nd: "noDefault s"
    and s': "s' = foldl (\<lambda>c i. splice1 i c) c' (tl is) @ [?rng]"
    and sh: "(c' = s \<and> length is \<le> length s
          \<and> (\<forall>i\<in>set is. \<forall>j. i \<le> j \<and> j < length s \<longrightarrow> type (s ! j) \<noteq> Some RANGE))
        \<or> (0 < length s \<and> type (s ! (length s - 1)) = Some RANGE \<and> c' = butlast s \<and> is = [])"
    by blast
  from sh show ?thesis
  proof
    assume a: "c' = s \<and> length is \<le> length s
          \<and> (\<forall>i\<in>set is. \<forall>j. i \<le> j \<and> j < length s \<longrightarrow> type (s ! j) \<noteq> Some RANGE)"
    let ?c = "foldl (\<lambda>c i. splice1 i c) s (tl is)"
    have "set (tl is) \<subseteq> set is" by (cases "is") auto
    with a have "\<forall>i\<in>set (tl is). \<forall>j. i \<le> j \<and> j < length s \<longrightarrow> type (s ! j) \<noteq> Some RANGE"
      by blast
    with nd assms(2) have r: "rangeNotFirst ?c" by (rule rangeNotFirst_removed)
    have "length (tl is) < length s" using a s by (cases "is") auto
    with length_foldl_splice1[of s "tl is"] have "?c \<noteq> []" by auto
    then obtain h' rest' where "?c = h' # rest'" by (cases ?c) auto
    with r s' a show ?thesis by (simp add: rangeNotFirst_Cons)
  next
    assume b: "0 < length s \<and> type (s ! (length s - 1)) = Some RANGE
        \<and> c' = butlast s \<and> is = []"
    with s h have "rest \<noteq> []" by (cases rest) auto
    with b s s' h show ?thesis by (simp add: rangeNotFirst_Cons)
  qed
qed

lemma noDefault_Nil: "noDefault []"
  by (simp add: noDefault_def)

lemma noDefault_handleDefault: "noDefault (handleDefault n)"
  by (simp add: noDefault_def handleDefault_def toggle_def)

lemma nextState_noDefault:
  assumes "nextState t s g = Inr s'"
  shows "noDefault s'"
proof (cases g)
  case reset
  with assms show ?thesis by (simp add: nextState_def handleReset_def noDefault_Nil)
next
  case (Selection x)
  from type_cases[of x] show ?thesis
  proof (elim disjE)
    assume "type x = None"
    with assms Selection show ?thesis by (auto simp: nextState_def noDefault_handleDefault)
  next
    assume "type x = Some DEFAULT"
    with assms Selection show ?thesis by (auto simp: nextState_def noDefault_handleDefault)
  next
    assume "type x = Some TOGGLE"
    with assms Selection have "handleToggle t s (node x) = Inr s'" by (simp add: nextState_def)
    then show ?thesis by (rule handleToggle_noDefault)
  next
    assume "type x = Some RANGE"
    with assms Selection have "handleRange t s (node x) = Inr s'" by (simp add: nextState_def)
    then show ?thesis by (rule handleRange_noDefault)
  qed
qed

lemma rangeNotFirst_handleDefault: "rangeNotFirst (handleDefault n)"
  by (simp add: rangeNotFirst_def handleDefault_def toggle_def)

lemma nextState_rangeNotFirst:
  assumes "nextState t s g = Inr s'" and "rangeNotFirst s" and "\<not> (s = [] \<and> isRange g)"
  shows "rangeNotFirst s'"
proof (cases g)
  case reset
  with assms show ?thesis by (simp add: nextState_def handleReset_def rangeNotFirst_def)
next
  case (Selection x)
  from type_cases[of x] show ?thesis
  proof (elim disjE)
    assume "type x = None"
    with assms Selection show ?thesis by (auto simp: nextState_def rangeNotFirst_handleDefault)
  next
    assume "type x = Some DEFAULT"
    with assms Selection show ?thesis by (auto simp: nextState_def rangeNotFirst_handleDefault)
  next
    assume "type x = Some TOGGLE"
    with assms Selection have "handleToggle t s (node x) = Inr s'" by (simp add: nextState_def)
    then show ?thesis using assms(2) by (rule handleToggle_rangeNotFirst)
  next
    assume r: "type x = Some RANGE"
    with assms Selection have h: "handleRange t s (node x) = Inr s'" by (simp add: nextState_def)
    from r Selection assms(3) have "s \<noteq> []" by (simp add: isRange_def)
    with h assms(2) show ?thesis by (rule handleRange_rangeNotFirst)
  qed
qed

lemma reachable_noDefault: "reachable s \<Longrightarrow> noDefault s"
  by (induction rule: reachable.induct) (auto simp: noDefault_Nil dest: nextState_noDefault)

lemma anchored_reachable: "anchored s \<Longrightarrow> reachable s"
  by (induction rule: anchored.induct) (auto intro: reachable.intros)

lemma anchored_rangeNotFirst: "anchored s \<Longrightarrow> rangeNotFirst s"
proof (induction rule: anchored.induct)
  case anchored_empty
  show ?case by (simp add: rangeNotFirst_def)
next
  case (anchored_next s t g s')
  from anchored_next.hyps(2) anchored_next.IH anchored_next.hyps(3)
  show ?case by (rule nextState_rangeNotFirst)
qed

lemma asArrayLoop_append:
  "asArrayLoop t l nodes (xs @ ys)
   = asArrayLoop t (if xs = [] then l else Some (last xs)) (asArrayLoop t l nodes xs) ys"
  by (induction xs arbitrary: l nodes) simp_all

lemma asArrayLoop_all_toggle:
  "\<forall>x\<in>set c. type x = Some TOGGLE \<Longrightarrow> asArrayLoop t l nodes c = nodes @ map node c"
  by (induction c arbitrary: l nodes) simp_all

lemma asArrayLoop_toggles: "asArrayLoop t l nodes (map toggle ys) = nodes @ ys"
proof -
  have "\<forall>x\<in>set (map toggle ys). type x = Some TOGGLE" by (simp add: toggle_def)
  then have "asArrayLoop t l nodes (map toggle ys) = nodes @ map node (map toggle ys)"
    by (rule asArrayLoop_all_toggle)
  also have "map node (map toggle ys) = ys" by (induction ys) (simp_all add: toggle_def)
  finally show ?thesis .
qed

lemma asArray_noDefault: "noDefault s \<Longrightarrow> asArray t s = Inr (rev (asArrayLoop t None [] s))"
  by (simp add: asArray_def checkNoDefaultSelection_iff[THEN iffD2])

lemma asArray_Inr: "asArray t s = Inr p \<Longrightarrow> noDefault s \<and> p = rev (asArrayLoop t None [] s)"
  by (cases "checkNoDefaultSelection s") (auto simp: asArray_def checkNoDefaultSelection_iff)

lemma splitRange_top:
  assumes "selectionRange t (Some a) n = a # x # rest"
  shows "splitRange t (below @ [toggle a, \<lparr>node = n, type = Some RANGE\<rparr>]) a
           (length (below @ [toggle a, \<lparr>node = n, type = Some RANGE\<rparr>]))
         = Some (below @ toggle a # map toggle rest)"
proof -
  let ?s = "below @ [toggle a, \<lparr>node = n, type = Some RANGE\<rparr>]"
  have l: "length ?s = Suc (Suc (length below))" by simp
  have top: "?s ! Suc (length below) = \<lparr>node = n, type = Some RANGE\<rparr>"
    by (simp add: nth_append)
  have anchor: "?s ! length below = toggle a" by (simp add: nth_append)
  have "splitRange t ?s a (Suc (Suc (length below)))
      = Some (take (Suc (length below)) ?s @ map toggle (tl (splice1 0 (a # x # rest)))
              @ drop (Suc (Suc (length below))) ?s)"
    using top anchor assms by (simp add: Let_def toggle_def del: nth_append_length)
  then show ?thesis unfolding l by (simp add: splice1_def)
qed

lemma splitRange_all_toggle:
  "\<forall>x\<in>set s. type x = Some TOGGLE \<Longrightarrow> k \<le> length s \<Longrightarrow> splitRange t s n k = None"
  by (induction k) (simp_all add: Let_def)

lemma toggleToRemove_Nil:
  "toggleToRemove s n k = [] \<Longrightarrow> \<forall>x\<in>set s. type x = Some TOGGLE \<Longrightarrow> k \<le> length s \<Longrightarrow>
   \<forall>i<k. node (s ! i) \<noteq> n"
  by (induction k) (auto simp: less_Suc_eq split: if_splits)

lemma distinct_splice1: "distinct (map f c) \<Longrightarrow> distinct (map f (splice1 i c))"
proof -
  assume d: "distinct (map f c)"
  have "map f (splice1 i c) = take i (map f c) @ drop (Suc i) (map f c)"
    by (simp add: splice1_def take_map drop_map)
  moreover have "set (take i (map f c)) \<inter> set (drop (Suc i) (map f c)) = {}"
    using d by (intro set_take_disj_set_drop_if_distinct) simp_all
  ultimately show ?thesis using d by (simp add: distinct_take distinct_drop)
qed

lemma distinct_foldl_splice1:
  "distinct (map f c) \<Longrightarrow> distinct (map f (foldl (\<lambda>c i. splice1 i c) c is))"
  by (induction "is" arbitrary: c) (simp_all add: distinct_splice1)

lemma foldl_splice1_indicesWhere:
  "k \<le> length c \<Longrightarrow> take k c = take k xs \<Longrightarrow>
   foldl (\<lambda>c i. splice1 i c) c (indicesWhere P xs k) = filter (\<lambda>x. \<not> P x) (take k xs) @ drop k c"
proof (induction k arbitrary: c)
  case 0
  show ?case by simp
next
  case (Suc k)
  from Suc.prems have kc: "k < length c" by simp
  from Suc.prems have "length (take (Suc k) c) = length (take (Suc k) xs)" by simp
  with kc have kx: "k < length xs" by simp
  from Suc.prems(2) have tk: "take k c = take k xs"
    by (metis take_Suc_conv_app_nth kc kx append1_eq_conv)
  from Suc.prems(2) have nk: "c ! k = xs ! k"
    by (metis take_Suc_conv_app_nth kc kx append1_eq_conv)
  show ?case
  proof (cases "P (xs ! k)")
    case True
    have l: "k \<le> length (splice1 k c)" using kc by (simp add: splice1_def)
    have "take k (splice1 k c) = take k c" using kc by (simp add: splice1_def)
    with tk have t: "take k (splice1 k c) = take k xs" by simp
    have d: "drop k (splice1 k c) = drop (Suc k) c" using kc by (simp add: splice1_def)
    from Suc.IH[OF l t] True kx show ?thesis
      by (simp add: d take_Suc_conv_app_nth)
  next
    case False
    have "k \<le> length c" using kc by simp
    from Suc.IH[OF this tk] False kx kc nk show ?thesis
      by (simp add: take_Suc_conv_app_nth Cons_nth_drop_Suc[symmetric])
  qed
qed

lemma indicesWhere_Nil: "\<forall>x. \<not> P x \<Longrightarrow> indicesWhere P xs k = []"
  by (induction k) simp_all

lemma rangeToRemove_all_toggle:
  assumes "\<forall>x\<in>set s. type x = Some TOGGLE" and "type rng = Some RANGE"
  shows "k \<le> length s \<Longrightarrow>
    rangeToRemove t rng from s k
      = Inr (s, indicesWhere (\<lambda>x. inRange t rng from (node x) = Inr True) s k)"
proof (induction k)
  case 0
  show ?case by simp
next
  case (Suc k)
  then have "s ! k \<in> set s" by simp
  with assms(1) have ty: "type (s ! k) \<noteq> Some RANGE" by auto
  from inRange_Inr[OF assms(2)] obtain b where b: "inRange t rng from (node (s ! k)) = Inr b"
    by blast
  from Suc have "rangeToRemove t rng from s k
      = Inr (s, indicesWhere (\<lambda>x. inRange t rng from (node x) = Inr True) s k)" by simp
  with ty b show ?case by simp
qed

lemma inLoop_rangeLoop:
  "\<not> inLoop a b y st fin xs \<Longrightarrow> y \<noteq> a \<Longrightarrow> y \<noteq> b \<Longrightarrow> distinct (map nid xs) \<Longrightarrow>
   y \<notin> nid ` set (rangeLoop a b st fin xs)"
proof (induction xs arbitrary: st fin)
  case Nil
  show ?case by simp
next
  case (Cons n ns)
  show ?case
  proof (cases fin)
    case True
    then show ?thesis by simp
  next
    case False
    show ?thesis
    proof (cases "y = nid n")
      case True
      with Cons.prems have nb: "\<not> isBorder a b n" by (simp add: isBorder_def)
      from True Cons.prems(4) have "y \<notin> nid ` set ns" by auto
      with rangeLoop_subset[of a b _ _ ns] have r: "\<And>s f. y \<notin> nid ` set (rangeLoop a b s f ns)"
        by blast
      from Cons.prems(1) True False nb have "\<not> st" by (auto split: if_splits)
      with False nb r show ?thesis by simp
    next
      case neq: False
      with Cons.prems(1) False
      have "\<not> inLoop a b y (st \<or> isBorder a b n) (fin \<or> (isBorder a b n \<and> st)) ns"
        by (auto split: if_splits)
      from Cons.IH[OF this Cons.prems(2,3)] Cons.prems(4)
      have "y \<notin> nid ` set (rangeLoop a b (st \<or> isBorder a b n) (fin \<or> (isBorder a b n \<and> st)) ns)"
        by simp
      with neq False show ?thesis by auto
    qed
  qed
qed

lemma rangeLoop_distinct:
  "distinct (map f xs) \<Longrightarrow> distinct (map f (rangeLoop a b st fin xs))"
proof (induction xs arbitrary: st fin)
  case Nil
  show ?case by simp
next
  case (Cons n ns)
  from Cons.prems have "f n \<notin> f ` set ns" by simp
  with rangeLoop_subset[of a b _ _ ns] have "\<And>s g. f n \<notin> f ` set (rangeLoop a b s g ns)"
    by blast
  with Cons show ?case by simp
qed

lemma handleToggle_toggles:
  assumes "handleToggle t s n = Inr s'"
    and "\<forall>x\<in>set s. type x = Some TOGGLE" and "distinct (map node s)"
  shows "(\<forall>x\<in>set s'. type x = Some TOGGLE) \<and> distinct (map node s')"
proof -
  from assms(1) have "noDefault s" by (rule handleToggle_Inr_noDefault)
  then have ck: "checkNoDefaultSelection s = Inr s" by (simp add: checkNoDefaultSelection_iff)
  have sp: "splitRange t s n (length s) = None"
    using assms(2) by (rule splitRange_all_toggle) simp
  let ?is = "toggleToRemove s n (length s)"
  let ?c = "foldl (\<lambda>c i. splice1 i c) s ?is"
  show ?thesis
  proof (cases "?is = []")
    case True
    with assms(1) ck sp have s': "s' = s @ [toggle n]" by (simp add: handleToggle_def)
    from toggleToRemove_Nil[OF True assms(2)] have "\<forall>i<length s. node (s ! i) \<noteq> n" by simp
    then have "n \<notin> node ` set s" by (auto simp: in_set_conv_nth)
    with assms(2,3) s' show ?thesis by (auto simp: toggle_def)
  next
    case False
    with assms(1) ck sp have s': "s' = ?c" by (simp add: handleToggle_def Let_def)
    have "set ?c \<subseteq> set s" by (rule set_foldl_splice1)
    with assms(2) have "\<forall>x\<in>set ?c. type x = Some TOGGLE" by blast
    moreover have "distinct (map node ?c)" using assms(3) by (rule distinct_foldl_splice1)
    ultimately show ?thesis using s' by simp
  qed
qed

lemma toggled_toggles:
  "toggled s \<Longrightarrow> (\<forall>x\<in>set s. type x = Some TOGGLE) \<and> distinct (map node s)"
proof (induction rule: toggled.induct)
  case toggled_empty
  show ?case by simp
next
  case (toggled_next s g t s')
  show ?case
  proof (cases g)
    case reset
    with toggled_next.hyps(3) show ?thesis by (auto simp: nextState_def handleReset_def)
  next
    case (Selection x)
    from type_cases[of x] toggled_next.hyps(2) Selection
    consider "type x = None \<or> type x = Some DEFAULT" | "type x = Some TOGGLE"
      by (auto simp: isRange_def)
    then show ?thesis
    proof cases
      case 1
      with toggled_next.hyps(3) Selection have "s' = [toggle (node x)]"
        by (auto simp: nextState_def handleDefault_def)
      then show ?thesis by (simp add: toggle_def)
    next
      case 2
      with toggled_next.hyps(3) Selection have "handleToggle t s (node x) = Inr s'"
        by (simp add: nextState_def)
      with toggled_next.IH show ?thesis by (intro handleToggle_toggles) auto
    qed
  qed
qed

lemma asArrayLoop_range_on_toggles:
  assumes "\<forall>x\<in>set c. type x = Some TOGGLE" and "c \<noteq> []"
  shows "asArrayLoop t None [] (c @ [\<lparr>node = n, type = Some RANGE\<rparr>])
         = butlast (map node c) @ selectionRange t (Some (node (last c))) n"
proof -
  from assms have "type (last c) = Some TOGGLE" by simp
  with assms show ?thesis
    by (simp add: asArrayLoop_append asArrayLoop_all_toggle map_butlast)
qed

lemma orderedRange_distinct:
  assumes "wellFormed t"
  shows "distinct (orderedRange t a b)"
proof (cases "root t")
  case None
  then show ?thesis by (simp add: orderedRange_def)
next
  case (Some r)
  let ?R = "\<lambda>x y. rangeLoop x y False False (PreOrderTreeIterator True r)"
  from assms Some have "distinct (map nid (PreOrderTreeIterator True r))"
    by (simp add: wellFormed_def allNodes_def pruned_distinct)
  then have d: "\<And>x y. distinct (map nid (?R x y))" by (rule rangeLoop_distinct)
  then have "\<And>x y. distinct (map nid (filter selectable (?R x y)))"
    by (rule distinct_map_filter)
  moreover have "\<And>x y. distinct (map nid (filter selectable (rev (?R x y))))"
    using d by (intro distinct_map_filter) (simp add: rev_map[symmetric])
  ultimately show ?thesis using Some
    by (auto simp: orderedRange_def Let_def split: option.splits)
qed

lemma orderedRange_subset_rangeLoop:
  assumes "root t = Some r"
  shows "set (orderedRange t a b)
         \<subseteq> nid ` set (rangeLoop a b False False (PreOrderTreeIterator True r))"
proof -
  consider (inv) "validateNode t a = None \<or> validateNode t b = None"
    | (val) "validateNode t a = Some a" "validateNode t b = Some b"
    using validateNode_cases[of t a] validateNode_cases[of t b] by auto
  then show ?thesis
  proof cases
    case inv
    with assms show ?thesis by (auto simp: orderedRange_def split: option.splits)
  next
    case val
    with assms show ?thesis by (auto simp: orderedRange_def Let_def)
  qed
qed

lemma inRange_False_not_in_range:
  assumes "wellFormed t"
    and "inRange t \<lparr>node = n, type = Some RANGE\<rparr> (Some a) y \<noteq> Inr True"
  shows "y \<notin> set (selectionRange t (Some a) n)"
proof (cases "root t")
  case None
  then show ?thesis by (simp add: selectionRange_def orderedRange_def)
next
  case (Some r)
  from assms(2) Some have ne: "y \<noteq> a" "y \<noteq> n"
    and il: "\<not> inLoop a n y False False (PreOrderTreeIterator True r)"
    by (auto simp: inRange_def split: if_splits)
  from assms(1) Some have "distinct (map nid (PreOrderTreeIterator True r))"
    by (simp add: wellFormed_def allNodes_def pruned_distinct)
  with il ne have "y \<notin> nid ` set (rangeLoop a n False False (PreOrderTreeIterator True r))"
    by (intro inLoop_rangeLoop)
  with orderedRange_subset_rangeLoop[OF Some, of a n] have "y \<notin> set (orderedRange t a n)"
    by blast
  then show ?thesis by (simp add: selectionRange_def)
qed

lemma handleRange_on_toggles:
  assumes "\<forall>x\<in>set s. type x = Some TOGGLE" and "s \<noteq> []"
  shows "\<exists>c0. handleRange t s n = Inr (c0 @ [last s, \<lparr>node = n, type = Some RANGE\<rparr>])
     \<and> set c0 \<subseteq> set (butlast s)
     \<and> (distinct (map node (butlast s)) \<longrightarrow> distinct (map node c0))
     \<and> (root t \<noteq> None \<longrightarrow>
          (\<forall>x\<in>set c0. inRange t \<lparr>node = n, type = Some RANGE\<rparr> (Some (node (last s))) (node x)
            \<noteq> Inr True))"
proof -
  let ?rng = "\<lparr>node = n, type = Some RANGE\<rparr>"
  let ?from = "Some (node (last s))"
  let ?P = "\<lambda>x. inRange t ?rng ?from (node x) = Inr True"
  from assms(1) have "noDefault s" by (auto simp: noDefault_def list_all_iff)
  then have ck: "checkNoDefaultSelection s = Inr s" by (simp add: checkNoDefaultSelection_iff)
  have r: "rangeToRemove t ?rng ?from s (length s) = Inr (s, indicesWhere ?P s (length s))"
    using assms(1) by (intro rangeToRemove_all_toggle) simp_all
  from assms(2) obtain m where m: "length s = Suc m" by (cases s) auto
  have sb: "s = butlast s @ [last s]" using assms(2) by simp
  have lb: "length (butlast s) = m" using m by simp
  have bl1: "take m s = butlast s" using m by (simp add: butlast_conv_take)
  have "drop m (butlast s @ [last s]) = [last s]" using lb by simp
  with sb have bl2: "drop m s = [last s]" by simp
  have hr: "handleRange t s n
      = Inr (foldl (\<lambda>c i. splice1 i c) s (tl (indicesWhere ?P s (length s))) @ [?rng])"
    using ck r assms(2) by (simp add: handleRange_def Let_def)
  show ?thesis
  proof (cases "root t")
    case None
    then have "\<forall>x. \<not> ?P x" by (simp add: inRange_def)
    then have "indicesWhere ?P s (length s) = []" by (rule indicesWhere_Nil)
    with hr sb have "handleRange t s n = Inr (butlast s @ [last s, ?rng])"
      by (metis append.assoc append_Cons append_Nil foldl_Nil list.sel(2))
    with None show ?thesis by auto
  next
    case (Some r')
    let ?c0 = "filter (\<lambda>x. \<not> ?P x) (butlast s)"
    have "s ! m = last s" using m assms(2) by (simp add: last_conv_nth)
    then have "?P (s ! m)" using Some by (simp add: inRange_def)
    then have "tl (indicesWhere ?P s (length s)) = indicesWhere ?P s m" by (simp add: m)
    moreover have "foldl (\<lambda>c i. splice1 i c) s (indicesWhere ?P s m)
        = filter (\<lambda>x. \<not> ?P x) (take m s) @ drop m s"
      using m by (intro foldl_splice1_indicesWhere) simp_all
    ultimately have "handleRange t s n = Inr (?c0 @ [last s, ?rng])"
      using hr bl1 bl2 by simp
    moreover have "set ?c0 \<subseteq> set (butlast s)" by auto
    moreover have "distinct (map node (butlast s)) \<longrightarrow> distinct (map node ?c0)"
      by (simp add: distinct_map_filter)
    moreover have "\<forall>x\<in>set ?c0. \<not> ?P x" by simp
    ultimately show ?thesis by blast
  qed
qed

section \<open>Concrete scenarios\<close>

text \<open>
  C5. On the mock tree with every node expanded, the gestures TOGGLE 1.1, TOGGLE 1.2.1.1,
  RANGE 1.2.3, RANGE 1.2.1.2 applied to the empty state give the projection
  1.2.1.2, 1.2.1.1, 1.1.
\<close>

theorem scenario_S2:
  "projectionAfter mockTree
     [toggleSelection ''1.1'', toggleSelection ''1.2.1.1'', rangeSelection ''1.2.3'',
      rangeSelection ''1.2.1.2'']
   = Inr [''1.2.1.2'', ''1.2.1.1'', ''1.1'']"
  by code_simp

text \<open>
  C6. A RANGE gesture on the empty stack raises nothing: \<open>nextState\<close> returns the state
  whose stack is that single range, and the projection of that state is empty, on every
  tree and for every node.
\<close>

theorem range_on_empty_stack:
  "nextState t [] (rangeSelection n) = Inr [\<lparr>node = n, type = Some RANGE\<rparr>]
   \<and> asArray t [\<lparr>node = n, type = Some RANGE\<rparr>] = Inr []"
  by (simp add: nextState_def rangeSelection_def handleRange_def checkNoDefaultSelection_def
      asArray_def selectionRange_def)

section \<open>The selection service\<close>

text \<open>
  C10. When the projection of the next state has the same set of nodes as the current
  projection, \<open>addSelection\<close> returns the service as it was: the same stack, the same
  flags and no event fired. The gesture is therefore without effect on whatever is
  added afterwards.
\<close>

theorem addSelection_same_nodes:
  assumes "nextState t (state svc) g = Inr newState"
    and "asArray t (state svc) = Inr oldNodes"
    and "asArray t newState = Inr newNodes"
    and "set newNodes = set oldNodes"
  shows "addSelection t svc g = Inr svc
         \<and> addSelections t svc (g # gs) = addSelections t svc gs"
proof -
  have "difference oldNodes newNodes = []" "difference newNodes oldNodes = []"
    using assms(4) by (simp_all add: difference_Nil)
  then have "addSelection t svc g = Inr svc"
    using assms(1-3) by (simp add: addSelection_def)
  then show ?thesis by simp
qed

theorem addSelection_same_nodes_witness:
  "nextState mockTree (state rangedService) (toggleSelection ''1'')
     = Inr (state rangedService @ [toggle ''1''])
   \<and> asArray mockTree (state rangedService)
       = Inr [''1.2'', ''1.1.2'', ''1.1.1'', ''1.1'', ''1'']
   \<and> asArray mockTree (state rangedService @ [toggle ''1''])
       = Inr [''1'', ''1.2'', ''1.1.2'', ''1.1.1'', ''1.1'', ''1'']
   \<and> addSelection mockTree rangedService (toggleSelection ''1'') = Inr rangedService"
proof -
  have h1: "nextState mockTree (state rangedService) (toggleSelection ''1'')
     = Inr (state rangedService @ [toggle ''1''])" by code_simp
  have h2: "asArray mockTree (state rangedService)
     = Inr [''1.2'', ''1.1.2'', ''1.1.1'', ''1.1'', ''1'']" by code_simp
  have h3: "asArray mockTree (state rangedService @ [toggle ''1''])
       = Inr [''1'', ''1.2'', ''1.1.2'', ''1.1.1'', ''1.1'', ''1'']" by code_simp
  have h4: "set [''1'', ''1.2'', ''1.1.2'', ''1.1.1'', ''1.1'', ''1'']
      = set [''1.2'', ''1.1.2'', ''1.1.1'', ''1.1'', ''1'']" by auto
  show ?thesis using addSelection_same_nodes[OF h1 h2 h3 h4] h1 h2 h3 by simp
qed

section \<open>Collapsing a node above the selection\<close>

text \<open>
  C8. The expansion listener of the tree model: when the reported node \<open>e\<close> is not
  expanded, some selected node has \<open>e\<close> as an ancestor and \<open>e\<close> is a visible selectable
  node, the selection becomes exactly \<open>[e]\<close>; in every other case the selection is
  left as it was.
\<close>

theorem collapse_reconciliation:
  "onExpansionChanged t selNodes e =
     (if \<not> expanded t e \<and> (\<exists>s\<in>set selNodes. isAncestor t e s)
          \<and> SelectableTreeNode_isVisible t e
      then [e] else selNodes)"
proof (cases "\<not> expanded t e \<and> (\<exists>s\<in>set selNodes. isAncestor t e s)
          \<and> SelectableTreeNode_isVisible t e")
  case True
  then obtain s where "isAncestor t e s" by blast
  then have "validateNode t e = Some e" by (rule isAncestor_validateNode)
  moreover from True have "SelectableTreeNode_is t e"
    by (simp add: SelectableTreeNode_isVisible_def)
  ultimately have "setSelection t [e] = [e]" by (simp add: setSelection_def)
  with True show ?thesis by (auto simp: onExpansionChanged_def list_ex_iff)
next
  case False
  then show ?thesis by (auto simp: onExpansionChanged_def list_ex_iff)
qed

theorem collapse_reconciliation_witness:
  "(\<not> expanded mockTreeCollapsed ''1.2.1''
     \<and> (\<exists>s\<in>set [''1.3'', ''1.2.1.2'']. isAncestor mockTreeCollapsed ''1.2.1'' s)
     \<and> SelectableTreeNode_isVisible mockTreeCollapsed ''1.2.1'')
   \<and> onExpansionChanged mockTreeCollapsed [''1.3'', ''1.2.1.2''] ''1.2.1'' = [''1.2.1'']"
proof -
  have c: "\<not> expanded mockTreeCollapsed ''1.2.1''
     \<and> (\<exists>s\<in>set [''1.3'', ''1.2.1.2'']. isAncestor mockTreeCollapsed ''1.2.1'' s)
     \<and> SelectableTreeNode_isVisible mockTreeCollapsed ''1.2.1''"
    by code_simp
  show ?thesis
    using collapse_reconciliation[of mockTreeCollapsed "[''1.3'', ''1.2.1.2'']" "''1.2.1''"] c
    by (simp only: if_P[OF c] if_True simp_thms)
qed

section \<open>The two routes of setSelection\<close>

text \<open>
  C3, as the code has it. For every list \<open>ns\<close> of valid selectable nodes, the list-based
  \<open>setSelection\<close> leaves exactly \<open>ns\<close> selected, while \<open>reset\<close> followed by one DEFAULT
  gesture per node of \<open>ns\<close> in reverse order leaves only the first node of \<open>ns\<close>
  selected, because every DEFAULT gesture replaces the whole stack by one toggle. The two
  routes agree exactly on the lists of at most one node.
\<close>

theorem setSelection_paths:
  assumes "\<forall>n\<in>set ns. validateNode t n = Some n \<and> SelectableTreeNode_is t n"
    and "selectedNodes t svc = Inr old"
  shows "setSelection t ns = ns
         \<and> selectedNodesAfter t (setSelection_spec t svc ns) = Inr (take 1 ns)"
proof
  show "setSelection t ns = ns" using assms(1) by (rule setSelection_valid)
next
  from assms(2) have "asArray t (state svc) = Inr old" by (simp add: selectedNodes_def)
  from addSelection_reset[OF this]
  obtain svc1 where r: "addSelection t svc reset = Inr svc1"
    and e: "asArray t (state svc1) = Inr []" by auto
  show "selectedNodesAfter t (setSelection_spec t svc ns) = Inr (take 1 ns)"
  proof (cases ns)
    case Nil
    with r e show ?thesis
      by (simp add: setSelection_spec_def selectedNodesAfter_def selectedNodes_def)
  next
    case (Cons n ns')
    then have ne: "rev ns \<noteq> []" by simp
    from assms(1) have v: "\<forall>n\<in>set (rev ns). validateNode t n = Some n" by simp
    from e have "asArray t (state svc1) = Inr [] \<or> (\<exists>m. state svc1 = [toggle m])" by blast
    from addSelections_defaults[OF this v ne]
    obtain svc' where "addSelections t svc1 (map defaultSelection (rev ns)) = Inr svc'"
      and "state svc' = [toggle (last (rev ns))]" by auto
    with r Cons show ?thesis
      by (simp add: setSelection_spec_def selectedNodesAfter_def selectedNodes_def
          asArray_toggle)
  qed
qed

theorem setSelection_paths_witness:
  "list_all (\<lambda>n. validateNode mockTree n = Some n \<and> SelectableTreeNode_is mockTree n)
     [''1'', ''1.1'']
   \<and> selectedNodes mockTree initialService = Inr []
   \<and> setSelection mockTree [''1'', ''1.1''] = [''1'', ''1.1'']
   \<and> selectedNodesAfter mockTree (setSelection_spec mockTree initialService [''1'', ''1.1''])
       = Inr [''1'']"
proof -
  have h1: "\<forall>n\<in>set [''1'', ''1.1''].
      validateNode mockTree n = Some n \<and> SelectableTreeNode_is mockTree n"
    by code_simp
  have h2: "selectedNodes mockTree initialService = Inr []" by code_simp
  show ?thesis using setSelection_paths[OF h1 h2] h1 h2 by (simp add: list_all_iff)
qed

text \<open>
  C3 as stated fails on the two-node list 1, 1.1 over the mock tree: the list-based route
  selects both nodes, the gesture route only the node 1.
\<close>

theorem setSelection_paths_differ:
  "setSelection mockTree [''1'', ''1.1''] = [''1'', ''1.1'']
   \<and> selectedNodesAfter mockTree (setSelection_spec mockTree initialService [''1'', ''1.1''])
       = Inr [''1'']"
  by code_simp

section \<open>Ranges of the tree model\<close>

text \<open>
  C7, as the code has it. In a well-formed tree, let \<open>na\<close> come before \<open>nb\<close> in the
  collapse-pruned pre-order of the root, with \<open>ys\<close> the nodes between them. Then
  \<open>selectionRange(nb, na)\<close> of the tree model is the list of the selectable nodes among
  \<open>na\<close>, \<open>ys\<close>, \<open>nb\<close> in that order, and \<open>selectionRange(na, nb)\<close> is its reverse. The
  two calls are the reverse of each other for every pair of nodes \<open>a\<close>, \<open>b\<close>, whether
  they are visible or not.
\<close>

theorem selectionRange_between:
  assumes "wellFormed t" and "root t = Some r"
    and "PreOrderTreeIterator True r = xs @ na # ys @ nb # zs"
  shows "TreeModel_selectionRange t (nid nb) (Some (nid na))
           = map nid (filter selectable (na # ys @ [nb]))
         \<and> TreeModel_selectionRange t (nid na) (Some (nid nb))
           = rev (map nid (filter selectable (na # ys @ [nb])))
         \<and> TreeModel_selectionRange t b (Some a) = rev (TreeModel_selectionRange t a (Some b))"
proof -
  from assms(1,2) have "distinct (map nid (PreOrderTreeIterator True r))"
    by (simp add: wellFormed_def allNodes_def pruned_distinct)
  with assms(3) have ne: "nid nb \<noteq> nid na" by auto
  have 1: "TreeModel_selectionRange t (nid nb) (Some (nid na))
           = map nid (filter selectable (na # ys @ [nb]))"
    using ne orderedRange_between[OF assms] by (simp add: TreeModel_selectionRange_def)
  have "TreeModel_selectionRange t (nid na) (Some (nid nb))
      = rev (TreeModel_selectionRange t (nid nb) (Some (nid na)))"
    by (rule TreeModel_selectionRange_rev)
  with 1 show ?thesis by (simp add: TreeModel_selectionRange_rev[of t b a])
qed

theorem selectionRange_between_witness:
  "wellFormed mockTreeCollapsed
   \<and> TreeModel_selectionRange mockTreeCollapsed ''1.3'' (Some ''1.1.2'')
       = [''1.1.2'', ''1.2'', ''1.2.1'', ''1.2.2'', ''1.2.3'', ''1.3'']
   \<and> TreeModel_selectionRange mockTreeCollapsed ''1.1.2'' (Some ''1.3'')
       = [''1.3'', ''1.2.3'', ''1.2.2'', ''1.2.1'', ''1.2'', ''1.1.2'']"
proof -
  let ?po = "PreOrderTreeIterator True MOCK_ROOT_collapsed"
  have h1: "wellFormed mockTreeCollapsed" by code_simp
  have h2: "root mockTreeCollapsed = Some MOCK_ROOT_collapsed"
    by (simp add: mockTreeCollapsed_def)
  have h3: "?po = take 3 ?po @ mockNode ''1.1.2'' [] # take 4 (drop 4 ?po)
                  @ mockNode ''1.3'' [] # []"
    by (simp add: MOCK_ROOT_collapsed_def mockNode_def)
  have e: "map nid (filter selectable (mockNode ''1.1.2'' [] # take 4 (drop 4 ?po)
                  @ [mockNode ''1.3'' []]))
      = [''1.1.2'', ''1.2'', ''1.2.1'', ''1.2.2'', ''1.2.3'', ''1.3'']"
    by (simp add: MOCK_ROOT_collapsed_def mockNode_def)
  have n: "nid (mockNode ''1.1.2'' []) = ''1.1.2''" "nid (mockNode ''1.3'' []) = ''1.3''"
    by (simp_all add: mockNode_def)
  note th = selectionRange_between[OF h1 h2 h3, where a = "''1.1.2''" and b = "''1.3''"]
  show ?thesis using th[THEN conjunct1] th[THEN conjunct2, THEN conjunct1] h1
    unfolding e n by simp
qed

text \<open>
  C7 as stated fails between two visible selectable nodes that have a node without the
  property \<open>selected\<close> between them: \<open>selectionRange\<close> filters its result by
  \<open>SelectableTreeNode.is\<close>, so the range between \<open>1.1\<close> and \<open>1.3\<close> does not contain the
  node \<open>1.2\<close> that the collapse-pruned pre-order has between them.
\<close>

theorem selectionRange_plain_node_between:
  "wellFormed plainNodeTree
   \<and> root plainNodeTree = Some PLAIN_ROOT
   \<and> map nid (PreOrderTreeIterator True PLAIN_ROOT) = [''1'', ''1.1'', ''1.2'', ''1.3'']
   \<and> validateNode plainNodeTree ''1.1'' = Some ''1.1''
   \<and> SelectableTreeNode_isVisible plainNodeTree ''1.1''
   \<and> validateNode plainNodeTree ''1.3'' = Some ''1.3''
   \<and> SelectableTreeNode_isVisible plainNodeTree ''1.3''
   \<and> TreeModel_selectionRange plainNodeTree ''1.3'' (Some ''1.1'') = [''1.1'', ''1.3'']
   \<and> TreeModel_selectionRange plainNodeTree ''1.1'' (Some ''1.3'') = [''1.3'', ''1.1'']"
proof -
  have "wellFormed plainNodeTree" by code_simp
  moreover have "root plainNodeTree = Some PLAIN_ROOT" by (simp add: plainNodeTree_def)
  moreover have "map nid (PreOrderTreeIterator True PLAIN_ROOT)
      = [''1'', ''1.1'', ''1.2'', ''1.3'']" by code_simp
  moreover have "validateNode plainNodeTree ''1.1'' = Some ''1.1''" by code_simp
  moreover have "SelectableTreeNode_isVisible plainNodeTree ''1.1''" by code_simp
  moreover have "validateNode plainNodeTree ''1.3'' = Some ''1.3''" by code_simp
  moreover have "SelectableTreeNode_isVisible plainNodeTree ''1.3''" by code_simp
  moreover have "TreeModel_selectionRange plainNodeTree ''1.3'' (Some ''1.1'')
      = [''1.1'', ''1.3'']" by code_simp
  moreover have "TreeModel_selectionRange plainNodeTree ''1.1'' (Some ''1.3'')
      = [''1.3'', ''1.1'']" by code_simp
  ultimately show ?thesis by blast
qed

text \<open>
  An endpoint hidden below a collapsed node: the loop of \<open>selectionRange\<close> never meets it
  in the collapse-pruned iteration, so that the range is not closed. With \<open>1.2.1\<close>
  collapsed, the range from \<open>1.2.1.1\<close> to \<open>1.1\<close> runs from \<open>1.1\<close> to the end of the tree and
  does not contain \<open>1.2.1.1\<close>.
\<close>

lemma selectionRange_hidden_endpoint:
  "validateNode mockTreeCollapsed ''1.2.1.1'' = Some ''1.2.1.1''
   \<and> SelectableTreeNode_is mockTreeCollapsed ''1.2.1.1''
   \<and> validateNode mockTreeCollapsed ''1.1'' = Some ''1.1''
   \<and> SelectableTreeNode_is mockTreeCollapsed ''1.1''
   \<and> TreeModel_selectionRange mockTreeCollapsed ''1.1'' (Some ''1.2.1.1'')
       = [''1.1'', ''1.1.1'', ''1.1.2'', ''1.2'', ''1.2.1'', ''1.2.2'', ''1.2.3'', ''1.3'']"
proof -
  have "validateNode mockTreeCollapsed ''1.2.1.1'' = Some ''1.2.1.1''" by code_simp
  moreover have "SelectableTreeNode_is mockTreeCollapsed ''1.2.1.1''" by code_simp
  moreover have "validateNode mockTreeCollapsed ''1.1'' = Some ''1.1''" by code_simp
  moreover have "SelectableTreeNode_is mockTreeCollapsed ''1.1''" by code_simp
  moreover have "TreeModel_selectionRange mockTreeCollapsed ''1.1'' (Some ''1.2.1.1'')
       = [''1.1'', ''1.1.1'', ''1.1.2'', ''1.2'', ''1.2.1'', ''1.2.2'', ''1.2.3'', ''1.3'']"
    by code_simp
  ultimately show ?thesis by blast
qed

text \<open>
  C4, as the code has it. In a well-formed tree, when the range of \<open>selectRange(to, from,
  true)\<close> is not empty and no node of the prior selection belongs to it, the new
  selection is the range with \<open>to\<close> first and \<open>from\<close> last (the reverse of
  \<open>selectionRange(to, from)\<close>), followed by the prior selection, of which \<open>setSelection\<close>
  keeps the nodes that are valid and selectable.
\<close>

theorem selectRange_preserve:
  assumes "wellFormed t"
    and "TreeModel_selectionRange t toNode (Some fromNode) \<noteq> []"
    and "\<forall>n\<in>set selNodes. n \<notin> set (TreeModel_selectionRange t toNode (Some fromNode))"
  shows "selectRange t selNodes toNode (Some fromNode) True
         = rev (TreeModel_selectionRange t toNode (Some fromNode)) @ setSelection t selNodes"
proof -
  let ?rng = "rev (TreeModel_selectionRange t toNode (Some fromNode))"
  from assms(3) have "selectRangeLoop ?rng 0 selNodes = selNodes"
    by (intro selectRangeLoop_disjoint) simp
  moreover have "setSelection t ?rng = ?rng"
  proof (rule setSelection_valid, rule ballI)
    fix n assume "n \<in> set ?rng"
    then have "n \<in> set (orderedRange t fromNode toNode)"
      by (auto simp: TreeModel_selectionRange_def split: if_splits)
    with assms(1) show "validateNode t n = Some n \<and> SelectableTreeNode_is t n"
      by (rule orderedRange_nodes)
  qed
  ultimately show ?thesis using assms(2)
    by (simp add: selectRange_def Let_def setSelection_append)
qed

theorem selectRange_preserve_witness:
  "wellFormed mockTree
   \<and> TreeModel_selectionRange mockTree ''1.2.3'' (Some ''1.2.1'') \<noteq> []
   \<and> list_all (\<lambda>n. n \<notin> set (TreeModel_selectionRange mockTree ''1.2.3'' (Some ''1.2.1'')))
         [''1'', ''1.1.2'']
   \<and> selectRange mockTree [''1'', ''1.1.2''] ''1.2.3'' (Some ''1.2.1'') True
       = [''1.2.3'', ''1.2.2'', ''1.2.1.2'', ''1.2.1.1'', ''1.2.1'', ''1'', ''1.1.2'']"
proof -
  have h1: "wellFormed mockTree" by code_simp
  have h2: "TreeModel_selectionRange mockTree ''1.2.3'' (Some ''1.2.1'') \<noteq> []" by code_simp
  have h3: "\<forall>n\<in>set [''1'', ''1.1.2''].
        n \<notin> set (TreeModel_selectionRange mockTree ''1.2.3'' (Some ''1.2.1''))" by code_simp
  have e1: "rev (TreeModel_selectionRange mockTree ''1.2.3'' (Some ''1.2.1''))
      = [''1.2.3'', ''1.2.2'', ''1.2.1.2'', ''1.2.1.1'', ''1.2.1'']" by code_simp
  have e2: "setSelection mockTree [''1'', ''1.1.2''] = [''1'', ''1.1.2'']" by code_simp
  have "selectRange mockTree [''1'', ''1.1.2''] ''1.2.3'' (Some ''1.2.1'') True
       = [''1.2.3'', ''1.2.2'', ''1.2.1.2'', ''1.2.1.1'', ''1.2.1'', ''1'', ''1.1.2'']"
    using selectRange_preserve[OF h1 h2 h3] unfolding e1 e2 by simp
  with h1 h2 h3 show ?thesis by (simp add: list_all_iff)
qed

text \<open>
  C4 as stated fails on the order of the range: from the empty selection,
  \<open>selectRange(1.3, 1.2.1.2, true)\<close> selects \<open>1.3\<close> first and \<open>1.2.1.2\<close> last.
\<close>

theorem selectRange_order:
  "selectRange mockTree [] ''1.3'' (Some ''1.2.1.2'') True
     = [''1.3'', ''1.2.3'', ''1.2.2'', ''1.2.1.2'']"
  by code_simp

text \<open>
  Prior nodes inside the range: the loop of \<open>selectRange\<close> splices \<open>copy\<close> at the index
  the node has in the range, not at its index in \<open>copy\<close>. On the second step of the test
  of consecutive range selections the nodes \<open>1.2.1.2\<close> and \<open>1.2.1\<close> are selected twice.
\<close>

lemma selectRange_consecutive:
  "selectRange mockTree
     [''1.2.3'', ''1.2.2'', ''1.2.1.2'', ''1.2.1.1'', ''1.2.1'', ''1'', ''1.1.2'']
     ''1.2.1.2'' (Some ''1.2.1'') True
   = [''1.2.1.2'', ''1.2.1.1'', ''1.2.1'', ''1.2.2'', ''1.2.1.2'', ''1.2.1'', ''1'', ''1.1.2'']"
  by code_simp

section \<open>Invariants of the reachable states\<close>

text \<open>
  C2, as the code has it. Every state reachable from the empty state through \<open>nextState\<close>
  has a stack of TOGGLE and RANGE gestures only. When no RANGE gesture is applied to the
  empty stack on the way, the first gesture of a non-empty stack is a TOGGLE, never a RANGE.
\<close>

theorem stack_invariants:
  "(reachable s \<longrightarrow> noDefault s) \<and> (anchored s \<longrightarrow> noDefault s \<and> rangeNotFirst s)"
  using reachable_noDefault anchored_reachable anchored_rangeNotFirst by blast

theorem stack_invariants_witness:
  "reachable [toggle ''1.1'', \<lparr>node = ''1.2'', type = Some RANGE\<rparr>]
   \<and> anchored [toggle ''1.1'', \<lparr>node = ''1.2'', type = Some RANGE\<rparr>]
   \<and> noDefault [toggle ''1.1'', \<lparr>node = ''1.2'', type = Some RANGE\<rparr>]
   \<and> rangeNotFirst [toggle ''1.1'', \<lparr>node = ''1.2'', type = Some RANGE\<rparr>]"
proof -
  let ?s = "[toggle ''1.1'', \<lparr>node = ''1.2'', type = Some RANGE\<rparr>]"
  have r1: "nextState mockTree [] (toggleSelection ''1.1'') = Inr [toggle ''1.1'']"
    by code_simp
  have r2: "nextState mockTree [toggle ''1.1''] (rangeSelection ''1.2'') = Inr ?s"
    by code_simp
  have g1: "\<not> ([] = [] \<and> isRange (toggleSelection ''1.1''))"
    by (simp add: isRange_def toggleSelection_def)
  have g2: "\<not> ([toggle ''1.1''] = [] \<and> isRange (rangeSelection ''1.2''))" by simp
  have r: "reachable ?s"
    by (rule reachable_next[OF reachable_next[OF reachable_empty r1] r2])
  have a: "anchored ?s"
    by (rule anchored_next[OF anchored_next[OF anchored_empty r1 g1] r2 g2])
  show ?thesis using stack_invariants[of ?s] r a by blast
qed

text \<open>
  C2 as stated fails on the state reached from the empty state by one RANGE gesture: its
  stack is not empty and starts with that range.
\<close>

theorem range_first_reachable:
  "reachable [\<lparr>node = ''1.1'', type = Some RANGE\<rparr>]
   \<and> \<not> rangeNotFirst [\<lparr>node = ''1.1'', type = Some RANGE\<rparr>]"
proof -
  have "nextState mockTree [] (rangeSelection ''1.1'') = Inr [\<lparr>node = ''1.1'', type = Some RANGE\<rparr>]"
    by code_simp
  from reachable_next[OF reachable_empty this]
  show ?thesis by (simp add: rangeNotFirst_def)
qed

section \<open>Toggling the anchor of the topmost range\<close>

text \<open>
  C9, as the code has it. Let the two topmost gestures be a TOGGLE of \<open>a\<close> and, above it,
  a RANGE to \<open>n\<close>, let the range from \<open>a\<close> to \<open>n\<close> start with \<open>a\<close> followed by \<open>x\<close>, and
  let \<open>x\<close> occur only once in the projection. Then TOGGLE \<open>a\<close> replaces the range by the
  toggles of the nodes after \<open>x\<close>: the projection of the new state contains \<open>a\<close> and does
  not contain \<open>x\<close>.
\<close>

theorem toggle_anchor:
  assumes "noDefault below"
    and "selectionRange t (Some a) n = a # x # rest"
    and "asArray t (below @ [toggle a, \<lparr>node = n, type = Some RANGE\<rparr>]) = Inr p"
    and "count_list p x = 1"
  shows "nextState t (below @ [toggle a, \<lparr>node = n, type = Some RANGE\<rparr>]) (toggleSelection a)
           = Inr (below @ toggle a # map toggle rest)
         \<and> (\<exists>p'. asArray t (below @ toggle a # map toggle rest) = Inr p'
                  \<and> a \<in> set p' \<and> x \<notin> set p')"
proof -
  let ?r = "\<lparr>node = n, type = Some RANGE\<rparr>"
  let ?s = "below @ [toggle a, ?r]"
  let ?P = "asArrayLoop t None [] below"
  have nd: "noDefault ?s" using assms(1)
    by (simp add: noDefault_append) (simp add: noDefault_def toggle_def)
  have "nextState t ?s (toggleSelection a) = handleToggle t ?s a"
    by (simp add: nextState_def toggleSelection_def)
  also have "\<dots> = Inr (below @ toggle a # map toggle rest)"
    using nd splitRange_top[OF assms(2), of below]
    by (simp add: handleToggle_def checkNoDefaultSelection_iff[THEN iffD2])
  finally have step: "nextState t ?s (toggleSelection a) = Inr (below @ toggle a # map toggle rest)" .
  have "asArrayLoop t None [] ?s = ?P @ a # x # rest"
    using assms(2) by (simp add: asArrayLoop_append toggle_def)
  with assms(3) nd have p: "p = rev (?P @ a # x # rest)" by (simp add: asArray_noDefault)
  have "count_list p x = count_list ?P x + count_list (a # x # rest) x"
    unfolding p by simp
  with assms(4) have c: "count_list ?P x = 0" "x \<noteq> a" "count_list rest x = 0"
    by (auto split: if_splits)
  then have notin: "x \<notin> set ?P" "x \<notin> set rest" by (simp_all add: count_list_0_iff)
  have nd': "noDefault (below @ toggle a # map toggle rest)"
    using assms(1) noDefault_toggle[of "a # rest"] by (simp add: noDefault_append)
  have "asArrayLoop t None [] (below @ map toggle (a # rest)) = ?P @ a # rest"
    by (simp only: asArrayLoop_append asArrayLoop_toggles)
  then have "asArray t (below @ toggle a # map toggle rest) = Inr (rev (?P @ a # rest))"
    using nd' by (simp add: asArray_noDefault)
  moreover have "a \<in> set (rev (?P @ a # rest))" by simp
  moreover have "x \<notin> set (rev (?P @ a # rest))" using notin c(2) by simp
  ultimately show ?thesis using step by blast
qed

theorem toggle_anchor_witness:
  "selectionRange mockTree (Some ''1.1'') ''1.2'' = [''1.1'', ''1.1.1'', ''1.1.2'', ''1.2'']
   \<and> asArray mockTree [toggle ''1.1'', \<lparr>node = ''1.2'', type = Some RANGE\<rparr>]
       = Inr [''1.2'', ''1.1.2'', ''1.1.1'', ''1.1'']
   \<and> nextState mockTree [toggle ''1.1'', \<lparr>node = ''1.2'', type = Some RANGE\<rparr>]
         (toggleSelection ''1.1'')
       = Inr [toggle ''1.1'', toggle ''1.1.2'', toggle ''1.2'']
   \<and> (\<exists>p'. asArray mockTree [toggle ''1.1'', toggle ''1.1.2'', toggle ''1.2''] = Inr p'
            \<and> ''1.1'' \<in> set p' \<and> ''1.1.1'' \<notin> set p')"
proof -
  have h1: "noDefault []" by (simp add: noDefault_def)
  have h2: "selectionRange mockTree (Some ''1.1'') ''1.2''
      = ''1.1'' # ''1.1.1'' # [''1.1.2'', ''1.2'']" by code_simp
  have h3: "asArray mockTree ([] @ [toggle ''1.1'', \<lparr>node = ''1.2'', type = Some RANGE\<rparr>])
      = Inr [''1.2'', ''1.1.2'', ''1.1.1'', ''1.1'']" by code_simp
  have h4: "count_list [''1.2'', ''1.1.2'', ''1.1.1'', ''1.1''] ''1.1.1'' = 1" by simp
  show ?thesis using toggle_anchor[OF h1 h2 h3 h4] h2 h3 by simp
qed

text \<open>
  C9 as stated fails on a state reachable from the empty state: after TOGGLE 1.1.1,
  TOGGLE 1.1, RANGE 1, RANGE 1.1.2 the topmost range from 1.1 to 1.1.2 contains 1.1.1,
  which is selected by the first toggle as well, and after TOGGLE 1.1 it is still selected.
\<close>

theorem toggle_anchor_still_selected:
  "nextStates mockTree []
     [toggleSelection ''1.1.1'', toggleSelection ''1.1'', rangeSelection ''1'',
      rangeSelection ''1.1.2'']
     = Inr [toggle ''1.1.1'', toggle ''1.1'', \<lparr>node = ''1.1.2'', type = Some RANGE\<rparr>]
   \<and> selectionRange mockTree (Some ''1.1'') ''1.1.2'' = [''1.1'', ''1.1.1'', ''1.1.2'']
   \<and> nextState mockTree
         [toggle ''1.1.1'', toggle ''1.1'', \<lparr>node = ''1.1.2'', type = Some RANGE\<rparr>]
         (toggleSelection ''1.1'')
       = Inr [toggle ''1.1.1'', toggle ''1.1'', toggle ''1.1.2'']
   \<and> asArray mockTree [toggle ''1.1.1'', toggle ''1.1'', toggle ''1.1.2'']
       = Inr [''1.1.2'', ''1.1'', ''1.1.1'']"
proof -
  have "nextStates mockTree []
     [toggleSelection ''1.1.1'', toggleSelection ''1.1'', rangeSelection ''1'',
      rangeSelection ''1.1.2'']
     = Inr [toggle ''1.1.1'', toggle ''1.1'', \<lparr>node = ''1.1.2'', type = Some RANGE\<rparr>]"
    by code_simp
  moreover have "selectionRange mockTree (Some ''1.1'') ''1.1.2''
      = [''1.1'', ''1.1.1'', ''1.1.2'']" by code_simp
  moreover have "nextState mockTree
         [toggle ''1.1.1'', toggle ''1.1'', \<lparr>node = ''1.1.2'', type = Some RANGE\<rparr>]
         (toggleSelection ''1.1'')
       = Inr [toggle ''1.1.1'', toggle ''1.1'', toggle ''1.1.2'']" by code_simp
  moreover have "asArray mockTree [toggle ''1.1.1'', toggle ''1.1'', toggle ''1.1.2'']
       = Inr [''1.1.2'', ''1.1'', ''1.1.1'']" by code_simp
  ultimately show ?thesis by blast
qed

section \<open>Duplicates in the projection\<close>

text \<open>
  C1, as the code has it. Over a well-formed tree, the projection of a state reached from
  the empty state by TOGGLE and DEFAULT gestures and \<open>reset\<close>, optionally followed by one
  RANGE gesture, contains every node at most once.
\<close>

theorem projection_distinct:
  assumes "toggled s" and "wellFormed t"
    and "s' = s \<or> nextState t s (rangeSelection n) = Inr s'"
    and "asArray t s' = Inr p"
  shows "distinct p"
proof -
  from toggled_toggles[OF assms(1)]
  have tg: "\<forall>x\<in>set s. type x = Some TOGGLE" and ds: "distinct (map node s)" by simp_all
  from assms(4) have p: "p = rev (asArrayLoop t None [] s')" using asArray_Inr by blast
  from assms(3) show ?thesis
  proof
    assume "s' = s"
    with p tg ds show ?thesis by (simp add: asArrayLoop_all_toggle)
  next
    assume "nextState t s (rangeSelection n) = Inr s'"
    then have hr: "handleRange t s n = Inr s'" by (simp add: nextState_def rangeSelection_def)
    show ?thesis
    proof (cases "s = []")
      case True
      with hr have "s' = [\<lparr>node = n, type = Some RANGE\<rparr>]"
        by (simp add: handleRange_def checkNoDefaultSelection_def)
      with p show ?thesis by (simp add: selectionRange_def)
    next
      case False
      let ?a = "node (last s)"
      let ?R = "selectionRange t (Some ?a) n"
      from handleRange_on_toggles[OF tg False, of t n] obtain c0 where
        h: "handleRange t s n = Inr (c0 @ [last s, \<lparr>node = n, type = Some RANGE\<rparr>])"
        and sub0: "set c0 \<subseteq> set (butlast s)"
        and dc: "distinct (map node (butlast s)) \<longrightarrow> distinct (map node c0)"
        and out: "root t \<noteq> None \<longrightarrow>
          (\<forall>x\<in>set c0. inRange t \<lparr>node = n, type = Some RANGE\<rparr> (Some ?a) (node x) \<noteq> Inr True)"
        by blast
      from h hr have s': "s' = c0 @ [last s, \<lparr>node = n, type = Some RANGE\<rparr>]" by simp
      have sub: "set c0 \<subseteq> set s" using sub0 by (auto dest: in_set_butlastD)
      have "\<forall>x\<in>set (c0 @ [last s]). type x = Some TOGGLE" using tg sub False by auto
      from asArrayLoop_range_on_toggles[OF this, of t n]
      have "asArrayLoop t None [] s' = map node c0 @ ?R" by (simp add: s')
      with p have p': "p = rev (map node c0 @ ?R)" by simp
      have "distinct (map node (butlast s))" using ds by (simp add: map_butlast distinct_butlast)
      with dc have d1: "distinct (map node c0)" by simp
      have d2: "distinct ?R"
        using orderedRange_distinct[OF assms(2)] by (simp add: selectionRange_def)
      have d3: "\<forall>x\<in>set c0. node x \<notin> set ?R"
      proof (cases "root t")
        case None
        then show ?thesis by (simp add: selectionRange_def orderedRange_def)
      next
        case (Some r)
        show ?thesis
        proof
          fix x assume "x \<in> set c0"
          with out Some
          have "inRange t \<lparr>node = n, type = Some RANGE\<rparr> (Some ?a) (node x) \<noteq> Inr True"
            by simp
          with assms(2) show "node x \<notin> set ?R" by (rule inRange_False_not_in_range)
        qed
      qed
      from d1 d2 d3 show ?thesis unfolding p' by auto
    qed
  qed
qed

theorem projection_distinct_witness:
  "toggled [toggle ''1'', toggle ''1.1'']
   \<and> wellFormed mockTree
   \<and> nextState mockTree [toggle ''1'', toggle ''1.1''] (rangeSelection ''1.2'')
       = Inr [toggle ''1'', toggle ''1.1'', \<lparr>node = ''1.2'', type = Some RANGE\<rparr>]
   \<and> asArray mockTree [toggle ''1'', toggle ''1.1'', \<lparr>node = ''1.2'', type = Some RANGE\<rparr>]
       = Inr [''1.2'', ''1.1.2'', ''1.1.1'', ''1.1'', ''1'']
   \<and> distinct [''1.2'', ''1.1.2'', ''1.1.1'', ''1.1'', ''1'']"
proof -
  let ?s = "[toggle ''1'', toggle ''1.1'']"
  let ?s' = "[toggle ''1'', toggle ''1.1'', \<lparr>node = ''1.2'', type = Some RANGE\<rparr>]"
  have r1: "nextState mockTree [] (toggleSelection ''1'') = Inr [toggle ''1'']" by code_simp
  have r2: "nextState mockTree [toggle ''1''] (toggleSelection ''1.1'') = Inr ?s" by code_simp
  have g: "\<And>i. \<not> isRange (toggleSelection i)" by (simp add: isRange_def toggleSelection_def)
  have h1: "toggled ?s"
    by (rule toggled_next[OF toggled_next[OF toggled_empty g r1] g r2])
  have h2: "wellFormed mockTree" by code_simp
  have r3: "nextState mockTree ?s (rangeSelection ''1.2'') = Inr ?s'" by code_simp
  then have h3: "?s' = ?s \<or> nextState mockTree ?s (rangeSelection ''1.2'') = Inr ?s'"
    by (rule disjI2)
  have h4: "asArray mockTree ?s' = Inr [''1.2'', ''1.1.2'', ''1.1.1'', ''1.1'', ''1'']"
    by code_simp
  from projection_distinct[OF h1 h2 h3 h4] h1 h2 r3 h4 show ?thesis by blast
qed

text \<open>
  C1 as stated fails after TOGGLE 1, TOGGLE 1.1, RANGE 1.2, TOGGLE 1 on the mock tree: the
  second toggle of the node 1 meets the range on top of the stack, is not merged with the
  first one and is pushed, so that the node 1 is twice in the projection.
\<close>

theorem projection_duplicate:
  "projectionAfter mockTree
     [toggleSelection ''1'', toggleSelection ''1.1'', rangeSelection ''1.2'',
      toggleSelection ''1'']
   = Inr [''1'', ''1.2'', ''1.1.2'', ''1.1.1'', ''1.1'', ''1'']"
  by code_simp

end
